theory Spec2Isabelle
  imports Main "HOL-Library.Multiset"
begin

section \<open>The ORDER BY executor of the execution engine (orderbyexecutor.cpp)\<close>

text \<open>
  The model follows \<^verbatim>\<open>src/ee/executors/orderbyexecutor.cpp\<close>. In \<open>p_execute\<close> and the
  comparator, exceptions, failed \<^verbatim>\<open>assert\<close>s (there modelled as compiled in) and reads out
  of range are values of the type \<open>error\<close>; a function that can raise returns
  \<open>error + 'a\<close> with \<open>Inl\<close> for the error. \<open>p_init\<close> takes the build mode as a parameter
  and keeps the abort of a failed \<^verbatim>\<open>assert\<close> apart from a return.
  Tuples (\<open>'t\<close>), values (\<open>'v\<close>), schemas (\<open>'s\<close>), parameter sets (\<open>'p\<close>) and the state of
  the progress monitor (\<open>'m\<close>) are opaque: the executor only passes them around.
\<close>

subsection \<open>Errors and sort directions\<close>

text \<open>
  \<open>AssertionFailure\<close> is a failed \<^verbatim>\<open>assert\<close>; \<open>SerializableEEException\<close> carries the
  message of the exception thrown by the comparator; \<open>Cancellation\<close> is the signal the
  progress monitor may raise from \<^verbatim>\<open>countdownProgress\<close>; \<open>OutOfRange\<close> stands for a read
  through a null pointer or outside a vector, which C++ leaves undefined.
\<close>

datatype error =
    AssertionFailure
  | SerializableEEException string
  | Cancellation
  | OutOfRange

datatype SortDirectionType =
    SORT_DIRECTION_TYPE_INVALID
  | SORT_DIRECTION_TYPE_ASC
  | SORT_DIRECTION_TYPE_DESC

subsection \<open>TupleComparer\<close>

text \<open>
  \<^verbatim>\<open>TupleComparer::operator()\<close>. A key expression is the function \<^verbatim>\<open>k->eval(&t, NULL)\<close>
  from tuples to values; \<open>cmp\<close> is \<^verbatim>\<open>NValue::compare\<close>, whose sign is the verdict. The loop
  over \<^verbatim>\<open>i < m_keyCount\<close> reads \<^verbatim>\<open>m_keys[i]\<close> and \<^verbatim>\<open>m_dirs[i]\<close>: it is the recursion over both
  vectors at once; a direction vector shorter than the key vector is a read out of range
  (the constructor asserts that the sizes agree).
\<close>

fun TupleComparer_op ::
  "('v \<Rightarrow> 'v \<Rightarrow> int) \<Rightarrow> ('t \<Rightarrow> 'v) list \<Rightarrow> SortDirectionType list \<Rightarrow> 't \<Rightarrow> 't \<Rightarrow> error + bool"
where
  "TupleComparer_op cmp [] ds ta tb = Inr False"
| "TupleComparer_op cmp (k # ks) [] ta tb = Inl OutOfRange"
| "TupleComparer_op cmp (k # ks) (dir # ds) ta tb =
     (let c = cmp (k ta) (k tb) in
      if dir = SORT_DIRECTION_TYPE_ASC then
        (if c < 0 then Inr True
         else if c > 0 then Inr False
         else TupleComparer_op cmp ks ds ta tb)
      else if dir = SORT_DIRECTION_TYPE_DESC then
        (if c < 0 then Inr False
         else if c > 0 then Inr True
         else TupleComparer_op cmp ks ds ta tb)
      else Inl (SerializableEEException
                  ''Attempted to sort using SORT_DIRECTION_TYPE_INVALID''))"

text \<open>The constructor: \<^verbatim>\<open>assert(keys.size() == dirs.size())\<close>.\<close>

definition TupleComparer ::
  "('v \<Rightarrow> 'v \<Rightarrow> int) \<Rightarrow> ('t \<Rightarrow> 'v) list \<Rightarrow> SortDirectionType list
   \<Rightarrow> error + ('t \<Rightarrow> 't \<Rightarrow> error + bool)"
where
  "TupleComparer cmp keys dirs =
     (if length keys = length dirs then Inr (TupleComparer_op cmp keys dirs)
      else Inl AssertionFailure)"

subsection \<open>The lexicographic verdict, as the specification words it\<close>

text \<open>
  The direction-adjusted comparison of one entry: the raw comparison for an ascending
  key, its inverse for a descending key. The verdict is taken at the first entry whose
  adjusted comparison is not zero; with no such entry the tuples tie.
\<close>

definition adjusted_cmp ::
  "('v \<Rightarrow> 'v \<Rightarrow> int) \<Rightarrow> 't \<Rightarrow> 't \<Rightarrow> ('t \<Rightarrow> 'v) \<times> SortDirectionType \<Rightarrow> int"
where
  "adjusted_cmp cmp ta tb e =
     (if snd e = SORT_DIRECTION_TYPE_DESC then - cmp (fst e ta) (fst e tb)
      else cmp (fst e ta) (fst e tb))"

definition lex_precedes ::
  "('v \<Rightarrow> 'v \<Rightarrow> int) \<Rightarrow> (('t \<Rightarrow> 'v) \<times> SortDirectionType) list \<Rightarrow> 't \<Rightarrow> 't \<Rightarrow> bool"
where
  "lex_precedes cmp spec ta tb =
     (case find (\<lambda>e. adjusted_cmp cmp ta tb e \<noteq> 0) spec of
        None \<Rightarrow> False
      | Some e \<Rightarrow> adjusted_cmp cmp ta tb e < 0)"

definition valid_direction :: "SortDirectionType \<Rightarrow> bool" where
  "valid_direction d \<longleftrightarrow> d = SORT_DIRECTION_TYPE_ASC \<or> d = SORT_DIRECTION_TYPE_DESC"

text \<open>
  What the value domain promises of \<^verbatim>\<open>NValue::compare\<close>: swapping the arguments swaps
  the sign.
\<close>

definition compare_antisym :: "('v \<Rightarrow> 'v \<Rightarrow> int) \<Rightarrow> bool" where
  "compare_antisym cmp \<longleftrightarrow> (\<forall>x y. (cmp x y < 0) = (0 < cmp y x))"

text \<open>It orders the values: "not after" is transitive.\<close>

definition compare_trans :: "('v \<Rightarrow> 'v \<Rightarrow> int) \<Rightarrow> bool" where
  "compare_trans cmp \<longleftrightarrow> (\<forall>x y z. cmp x y \<le> 0 \<and> cmp y z \<le> 0 \<longrightarrow> cmp x z \<le> 0)"

subsection \<open>Tables, plan nodes and the executor\<close>

record ('s, 't) Table =
  schema :: 's
  tuples :: "'t list"

text \<open>
  \<^verbatim>\<open>LimitPlanNode::getLimitAndOffsetByReference(params, limit, offset)\<close> is not part of this
  file: a limit node is the function from the parameter set to the pair (limit, offset)
  it stores into the two references.
\<close>

type_synonym 'p LimitPlanNode = "'p \<Rightarrow> int \<times> int"

text \<open>
  What the executor reads of its plan node. A pointer that may be null is an \<open>option\<close>;
  \<open>getInlinePlanNode_LIMIT\<close> is \<^verbatim>\<open>dynamic_cast<LimitPlanNode*>(getInlinePlanNode(PLAN_NODE_TYPE_LIMIT))\<close>
  and \<open>getOutputTable\<close> is \<^verbatim>\<open>dynamic_cast<TempTable*>(getOutputTable())\<close>.
\<close>

record ('s, 't, 'v, 'p) OrderByPlanNode =
  getInputTables :: "('s, 't) Table option list"
  getChildren :: "unit option list"
  getInlinePlanNode_LIMIT :: "'p LimitPlanNode option"
  getSortExpressions :: "('t \<Rightarrow> 'v) list"
  getSortDirections :: "SortDirectionType list"
  getOutputTable :: "('s, 't) Table option"

text \<open>\<^verbatim>\<open>dynamic_cast<OrderByPlanNode*>\<close> succeeds on \<open>OrderBy\<close> only.\<close>

datatype ('s, 't, 'v, 'p) AbstractPlanNode =
    OrderBy "('s, 't, 'v, 'p) OrderByPlanNode"
  | OtherPlanNode

record ('s, 't, 'v, 'p) OrderByExecutor =
  m_abstractNode :: "('s, 't, 'v, 'p) AbstractPlanNode"
  limit_node :: "'p LimitPlanNode option"

text \<open>\<^verbatim>\<open>getInputTable()\<close>: the first input table.\<close>

definition getInputTable :: "('s, 't, 'v, 'p) OrderByPlanNode \<Rightarrow> ('s, 't) Table option" where
  "getInputTable node = (case getInputTables node of [] \<Rightarrow> None | t # _ \<Rightarrow> t)"

text \<open>
  The collaborators of the executor that live outside this file: the comparison of the
  value domain, \<^verbatim>\<open>TableTuple::isActive\<close>, \<^verbatim>\<open>ProgressMonitorProxy::countdownProgress\<close> (a step
  of the monitor's state that may raise), and the two algorithms of the C++ standard
  library, which take the comparator and let its exception through.
  \<open>std_partial_sort comparer n xs\<close> is \<^verbatim>\<open>partial_sort(xs.begin(), xs.begin() + n, xs.end(), comparer)\<close>.
\<close>

record ('t, 'v, 'm) collaborators =
  nvalue_compare :: "'v \<Rightarrow> 'v \<Rightarrow> int"
  isActive :: "'t \<Rightarrow> bool"
  countdownProgress :: "'m \<Rightarrow> error + 'm"
  std_sort :: "('t \<Rightarrow> 't \<Rightarrow> error + bool) \<Rightarrow> 't list \<Rightarrow> error + 't list"
  std_partial_sort :: "('t \<Rightarrow> 't \<Rightarrow> error + bool) \<Rightarrow> nat \<Rightarrow> 't list \<Rightarrow> error + 't list"

subsection \<open>p\_init\<close>

text \<open>
  Modelled from the spec: \<^verbatim>\<open>setTempOutputLikeInputTable\<close> belongs to the executor's base
  class, which is not in this file. It gives the node a fresh, empty output table whose
  schema is an exact copy of the schema of the input table, the first one of the node;
  without one it reads through a null pointer (\<open>Inl OutOfRange\<close>).
\<close>

definition setTempOutputLikeInputTable ::
  "('s, 't, 'v, 'p) OrderByPlanNode \<Rightarrow> error + ('s, 't, 'v, 'p) OrderByPlanNode"
where
  "setTempOutputLikeInputTable node =
     (case getInputTable node of
        None \<Rightarrow> Inl OutOfRange
      | Some input_table \<Rightarrow>
          Inr (node\<lparr>getOutputTable := Some \<lparr>schema = schema input_table, tuples = []\<rparr>\<rparr>))"

text \<open>
  How a call of \<open>p_init\<close> ends. It has no \<^verbatim>\<open>throw\<close>: it returns, or a failed \<^verbatim>\<open>assert\<close>
  aborts the process (nothing is returned and nothing is thrown), or it reads through a
  null pointer or outside a vector, which C++ leaves undefined.
\<close>

datatype 'a outcome =
    Returned 'a
  | Aborted
  | Undefined

text \<open>
  The two assertions on the node, in the order of the source:
  \<^verbatim>\<open>assert(node->getInputTables().size() == 1)\<close> and
  \<^verbatim>\<open>assert(node->getChildren()[0] != NULL)\<close>.
\<close>

definition p_init_asserts :: "('s, 't, 'v, 'p) OrderByPlanNode \<Rightarrow> unit outcome" where
  "p_init_asserts node =
     (if length (getInputTables node) \<noteq> 1 then Aborted
      else (case getChildren node of
              [] \<Rightarrow> Undefined
            | child # _ \<Rightarrow> if child = None then Aborted else Returned ()))"

text \<open>
  \<open>NDEBUG\<close> is the build mode: with \<^verbatim>\<open>NDEBUG\<close> defined the \<^verbatim>\<open>assert\<close> macro expands to
  nothing, so none of the three assertions is evaluated. After a failed cast the null
  \<open>node\<close> is read by \<^verbatim>\<open>assert(node)\<close> when asserts are compiled in and by
  \<^verbatim>\<open>node->getInlinePlanNode\<close> otherwise.
\<close>

definition p_init ::
  "bool \<Rightarrow> ('s, 't, 'v, 'p) AbstractPlanNode \<Rightarrow> ('s, 't, 'v, 'p) OrderByExecutor
   \<Rightarrow> (bool \<times> ('s, 't, 'v, 'p) OrderByExecutor) outcome"
where
  "p_init NDEBUG abstract_node ex =
     (case abstract_node of
        OtherPlanNode \<Rightarrow> if NDEBUG then Undefined else Aborted
      | OrderBy node \<Rightarrow>
          (case (if NDEBUG then Returned () else p_init_asserts node) of
             Aborted \<Rightarrow> Aborted
           | Undefined \<Rightarrow> Undefined
           | Returned _ \<Rightarrow>
               (case setTempOutputLikeInputTable node of
                  Inl e \<Rightarrow> Undefined
                | Inr node' \<Rightarrow>
                    Returned (True, ex\<lparr>m_abstractNode := OrderBy node',
                                        limit_node := getInlinePlanNode_LIMIT node\<rparr>))))"

subsection \<open>p\_execute\<close>

text \<open>
  The materialization loop: \<^verbatim>\<open>while (iterator.next(tuple))\<close> over the tuples the iterator
  yields, with \<open>xs\<close> the vector built so far.
\<close>

fun materialize ::
  "('t, 'v, 'm) collaborators \<Rightarrow> 't list \<Rightarrow> 't list \<Rightarrow> 'm \<Rightarrow> error + ('t list \<times> 'm)"
where
  "materialize E [] xs m = Inr (xs, m)"
| "materialize E (tuple # rest) xs m =
     (case countdownProgress E m of
        Inl e \<Rightarrow> Inl e
      | Inr m' \<Rightarrow>
          if \<not> isActive E tuple then Inl AssertionFailure
          else materialize E rest (xs @ [tuple]) m')"

text \<open>
  The emission loop over the ordered vector. The state is the content of the output
  table and the monitor; the result says whether the loop was left by an exception.
  \<^verbatim>\<open>insertTupleNonVirtual\<close> appends to the output table (the memory limit of the temp
  table lives outside this file and is not modelled). \<^verbatim>\<open>++tuple_ctr\<close> is evaluated only
  when \<^verbatim>\<open>limit >= 0\<close>. Both counters are C \<^verbatim>\<open>int\<close>s that never pass the \<^verbatim>\<open>int\<close>s they
  are compared with (\<open>tuple_skipped \<le> offset\<close>, \<open>tuple_ctr \<le> max 1 limit\<close>), so they do
  not wrap and are modelled as integers.
\<close>

fun emit ::
  "('t, 'v, 'm) collaborators \<Rightarrow> int \<Rightarrow> int \<Rightarrow> 't list \<Rightarrow> int \<Rightarrow> int \<Rightarrow> 't list \<times> 'm
   \<Rightarrow> error option \<times> 't list \<times> 'm"
where
  "emit E limit offset [] tuple_ctr tuple_skipped (out, m) = (None, out, m)"
| "emit E limit offset (it # its) tuple_ctr tuple_skipped (out, m) =
     (if tuple_skipped < offset
      then emit E limit offset its tuple_ctr (tuple_skipped + 1) (out, m)
      else (case countdownProgress E m of
              Inl e \<Rightarrow> (Some e, out @ [it], m)
            | Inr m' \<Rightarrow>
                if limit \<ge> 0 \<and> tuple_ctr + 1 \<ge> limit then (None, out @ [it], m')
                else emit E limit offset its
                       (if limit \<ge> 0 then tuple_ctr + 1 else tuple_ctr) tuple_skipped
                       (out @ [it], m')))"

text \<open>
  The choice between the two algorithms. \<^verbatim>\<open>xs.begin() + limit + offset\<close> is iterator
  arithmetic at the width of \<^verbatim>\<open>ptrdiff_t\<close>, so the sum of the two \<^verbatim>\<open>int\<close>s does not wrap;
  a middle iterator before \<^verbatim>\<open>xs.begin()\<close> is outside what \<^verbatim>\<open>partial_sort\<close> accepts.
\<close>

definition order_stage ::
  "('t, 'v, 'm) collaborators \<Rightarrow> ('t \<Rightarrow> 't \<Rightarrow> error + bool) \<Rightarrow> int \<Rightarrow> int \<Rightarrow> 't list
   \<Rightarrow> error + 't list"
where
  "order_stage E comparer limit offset xs =
     (if limit \<ge> 0 \<and> limit + offset < int (length xs)
      then (if limit + offset < 0 then Inl OutOfRange
            else std_partial_sort E comparer (nat (limit + offset)) xs)
      else std_sort E comparer xs)"

text \<open>
  Modelled from the spec: \<^verbatim>\<open>cleanupInputTempTable\<close> belongs to the executor's base class.
  It releases the input table, which has been consumed.
\<close>

definition cleanupInputTempTable ::
  "('s, 't, 'v, 'p) OrderByPlanNode \<Rightarrow> ('s, 't, 'v, 'p) OrderByPlanNode"
where
  "cleanupInputTempTable node =
     (case getInputTables node of
        Some input_table # rest \<Rightarrow>
          node\<lparr>getInputTables := Some (input_table\<lparr>tuples := []\<rparr>) # rest\<rparr>
      | _ \<Rightarrow> node)"

definition set_output ::
  "('s, 't, 'v, 'p) OrderByPlanNode \<Rightarrow> ('s, 't) Table \<Rightarrow> 't list
   \<Rightarrow> ('s, 't, 'v, 'p) OrderByPlanNode"
where
  "set_output node output_table out = node\<lparr>getOutputTable := Some (output_table\<lparr>tuples := out\<rparr>)\<rparr>"

text \<open>
  \<^verbatim>\<open>int limit = -1; int offset = -1;\<close> and, with an inlined limit node, the call of
  \<^verbatim>\<open>getLimitAndOffsetByReference\<close>.
\<close>

definition resolve_window :: "'p LimitPlanNode option \<Rightarrow> 'p \<Rightarrow> int \<times> int" where
  "resolve_window ln params = (case ln of None \<Rightarrow> (- 1, - 1) | Some l \<Rightarrow> l params)"

definition p_execute ::
  "('t, 'v, 'm) collaborators \<Rightarrow> 'p \<Rightarrow> ('s, 't, 'v, 'p) OrderByExecutor \<Rightarrow> 'm
   \<Rightarrow> (error + bool) \<times> ('s, 't, 'v, 'p) OrderByExecutor \<times> 'm"
where
  "p_execute E params ex m =
     (case m_abstractNode ex of
        OtherPlanNode \<Rightarrow> (Inl AssertionFailure, ex, m)
      | OrderBy node \<Rightarrow>
     (case getOutputTable node of
        None \<Rightarrow> (Inl AssertionFailure, ex, m)
      | Some output_table \<Rightarrow>
     (case getInputTable node of
        None \<Rightarrow> (Inl AssertionFailure, ex, m)
      | Some input_table \<Rightarrow>
     (case resolve_window (limit_node ex) params of
        (limit, offset) \<Rightarrow>
     (case materialize E (tuples input_table) [] m of
        Inl e \<Rightarrow> (Inl e, ex, m)
      | Inr (xs, m1) \<Rightarrow>
     (case TupleComparer (nvalue_compare E) (getSortExpressions node) (getSortDirections node) of
        Inl e \<Rightarrow> (Inl e, ex, m1)
      | Inr comparer \<Rightarrow>
     (case order_stage E comparer limit offset xs of
        Inl e \<Rightarrow> (Inl e, ex, m1)
      | Inr ys \<Rightarrow>
     (case emit E limit offset ys 0 0 (tuples output_table, m1) of
        (Some e, out, m2) \<Rightarrow>
          (Inl e, ex\<lparr>m_abstractNode := OrderBy (set_output node output_table out)\<rparr>, m2)
      | (None, out, m2) \<Rightarrow>
          (Inr True,
           ex\<lparr>m_abstractNode :=
                 OrderBy (cleanupInputTempTable (set_output node output_table out))\<rparr>,
           m2)))))))))"

text \<open>The content of the executor's output table (empty when there is none).\<close>

definition output_tuples :: "('s, 't, 'v, 'p) OrderByExecutor \<Rightarrow> 't list" where
  "output_tuples ex =
     (case m_abstractNode ex of
        OtherPlanNode \<Rightarrow> []
      | OrderBy node \<Rightarrow> (case getOutputTable node of None \<Rightarrow> [] | Some t \<Rightarrow> tuples t))"

subsection \<open>The contract of the standard algorithms\<close>

text \<open>
  \<^verbatim>\<open>std::sort\<close> and \<^verbatim>\<open>std::partial_sort\<close> are specified by the C++ standard, not by this
  repository, and neither is stable. The executor is verified against their contract: a
  returned sequence is a permutation of the argument in which no later element strictly
  precedes an earlier one (for \<^verbatim>\<open>partial_sort\<close>: among the first \<open>n\<close> positions, and no
  element behind them strictly precedes one of them); an exception that leaves the
  algorithm is one the comparator has thrown on two elements of the sequence.
\<close>

definition sorted_by :: "('t \<Rightarrow> 't \<Rightarrow> error + bool) \<Rightarrow> 't list \<Rightarrow> bool" where
  "sorted_by comparer ys \<longleftrightarrow> sorted_wrt (\<lambda>a b. comparer b a = Inr False) ys"

definition thrown_by :: "('t \<Rightarrow> 't \<Rightarrow> error + bool) \<Rightarrow> 't list \<Rightarrow> error \<Rightarrow> bool" where
  "thrown_by comparer xs e \<longleftrightarrow> (\<exists>a\<in>set xs. \<exists>b\<in>set xs. comparer a b = Inl e)"

definition sort_post ::
  "('t \<Rightarrow> 't \<Rightarrow> error + bool) \<Rightarrow> 't list \<Rightarrow> error + 't list \<Rightarrow> bool"
where
  "sort_post comparer xs r =
     (case r of
        Inl e \<Rightarrow> thrown_by comparer xs e
      | Inr ys \<Rightarrow> mset ys = mset xs \<and> sorted_by comparer ys)"

definition partial_sort_post ::
  "('t \<Rightarrow> 't \<Rightarrow> error + bool) \<Rightarrow> nat \<Rightarrow> 't list \<Rightarrow> error + 't list \<Rightarrow> bool"
where
  "partial_sort_post comparer n xs r =
     (case r of
        Inl e \<Rightarrow> thrown_by comparer xs e
      | Inr ys \<Rightarrow>
          mset ys = mset xs \<and> sorted_by comparer (take n ys) \<and>
          (\<forall>a\<in>set (take n ys). \<forall>b\<in>set (drop n ys). comparer b a = Inr False))"

definition std_contract ::
  "('t, 'v, 'm) collaborators \<Rightarrow> ('t \<Rightarrow> 't \<Rightarrow> error + bool) \<Rightarrow> 't list \<Rightarrow> bool"
where
  "std_contract E comparer xs \<longleftrightarrow>
     sort_post comparer xs (std_sort E comparer xs) \<and>
     (\<forall>n\<in>set [0..<Suc (length xs)].
        partial_sort_post comparer n xs (std_partial_sort E comparer n xs))"

text \<open>
  The precondition the standard puts on the comparator: on the elements it is applied to
  it returns a verdict, and the verdict is a strict weak ordering.
\<close>

definition strict_weak_on :: "('t \<Rightarrow> 't \<Rightarrow> error + bool) \<Rightarrow> 't set \<Rightarrow> bool" where
  "strict_weak_on comparer S \<longleftrightarrow>
     (\<forall>a\<in>S. \<forall>b\<in>S. comparer a b = Inr True \<or> comparer a b = Inr False) \<and>
     (\<forall>a\<in>S. \<forall>b\<in>S. comparer a b = Inr True \<longrightarrow> comparer b a = Inr False) \<and>
     (\<forall>a\<in>S. \<forall>b\<in>S. \<forall>c\<in>S.
        comparer a b = Inr True \<longrightarrow> comparer a c = Inr True \<or> comparer c b = Inr True)"

subsection \<open>What the emission loop inserts, and the window of the specification\<close>

text \<open>
  The slice of the ordered vector the loop of \<open>p_execute\<close> inserts when no exception
  interrupts it: the test of the limit comes after the insertion.
\<close>

definition emitted_slice :: "int \<Rightarrow> int \<Rightarrow> 't list \<Rightarrow> 't list" where
  "emitted_slice limit offset ys =
     (if 0 \<le> limit then take (nat (max 1 limit)) (drop (nat offset) ys)
      else drop (nat offset) ys)"

text \<open>
  The window as the specification words it: skip \<open>offset\<close> tuples, then emit up to
  \<open>limit\<close> tuples, or all of them without a limit (a negative \<open>limit\<close>).
\<close>

definition window :: "int \<Rightarrow> int \<Rightarrow> 't list \<Rightarrow> 't list" where
  "window limit offset ys =
     (if 0 \<le> limit then take (nat limit) (drop (nat offset) ys)
      else drop (nat offset) ys)"

text \<open>
  The count of the specification: \<open>min (max (N - O) 0) L\<close> with a limit, \<open>max (N - O) 0\<close>
  without one, an absent offset counting as zero.
\<close>

definition spec_count :: "int \<Rightarrow> int \<Rightarrow> nat \<Rightarrow> int" where
  "spec_count limit offset N =
     (if 0 \<le> limit then min (max (int N - max offset 0) 0) limit
      else max (int N - max offset 0) 0)"

text \<open>Full sort followed by the window of the specification.\<close>

definition full_sort_then_window ::
  "('t, 'v, 'm) collaborators \<Rightarrow> ('t \<Rightarrow> 't \<Rightarrow> error + bool) \<Rightarrow> int \<Rightarrow> int \<Rightarrow> 't list
   \<Rightarrow> error + 't list"
where
  "full_sort_then_window E comparer limit offset xs =
     (case std_sort E comparer xs of
        Inl e \<Rightarrow> Inl e
      | Inr zs \<Rightarrow> Inr (window limit offset zs))"

text \<open>Two tuples tie when neither strictly precedes the other.\<close>

definition ties :: "('t \<Rightarrow> 't \<Rightarrow> error + bool) \<Rightarrow> 't \<Rightarrow> 't \<Rightarrow> bool" where
  "ties comparer a b \<longleftrightarrow> comparer a b = Inr False \<and> comparer b a = Inr False"

text \<open>The monitor's state after \<open>k\<close> calls of \<^verbatim>\<open>countdownProgress\<close>, none of which raised.\<close>

fun countdown_times :: "('t, 'v, 'm) collaborators \<Rightarrow> nat \<Rightarrow> 'm \<Rightarrow> error + 'm" where
  "countdown_times E 0 m = Inr m"
| "countdown_times E (Suc k) m =
     (case countdownProgress E m of
        Inl e \<Rightarrow> Inl e
      | Inr m' \<Rightarrow> countdown_times E k m')"

subsection \<open>A reference instance of the collaborators\<close>

text \<open>
  An executable instance, used to run the executor on concrete inputs: selection sort,
  stopped after \<open>n\<close> rounds for the partial sort, a three-way comparison of integers, and
  a monitor that cancels when its budget of steps is used up.
\<close>

fun extract_min ::
  "('t \<Rightarrow> 't \<Rightarrow> error + bool) \<Rightarrow> 't \<Rightarrow> 't list \<Rightarrow> error + ('t \<times> 't list)"
where
  "extract_min comparer c [] = Inr (c, [])"
| "extract_min comparer c (y # ys) =
     (case comparer y c of
        Inl e \<Rightarrow> Inl e
      | Inr True \<Rightarrow>
          (case extract_min comparer y ys of
             Inl e \<Rightarrow> Inl e
           | Inr (z, rest) \<Rightarrow> Inr (z, c # rest))
      | Inr False \<Rightarrow>
          (case extract_min comparer c ys of
             Inl e \<Rightarrow> Inl e
           | Inr (z, rest) \<Rightarrow> Inr (z, y # rest)))"

fun selection_partial_sort ::
  "('t \<Rightarrow> 't \<Rightarrow> error + bool) \<Rightarrow> nat \<Rightarrow> 't list \<Rightarrow> error + 't list"
where
  "selection_partial_sort comparer 0 xs = Inr xs"
| "selection_partial_sort comparer (Suc n) [] = Inr []"
| "selection_partial_sort comparer (Suc n) (x # xs) =
     (case extract_min comparer x xs of
        Inl e \<Rightarrow> Inl e
      | Inr (z, rest) \<Rightarrow>
          (case selection_partial_sort comparer n rest of
             Inl e \<Rightarrow> Inl e
           | Inr ys \<Rightarrow> Inr (z # ys)))"

definition selection_sort :: "('t \<Rightarrow> 't \<Rightarrow> error + bool) \<Rightarrow> 't list \<Rightarrow> error + 't list" where
  "selection_sort comparer xs = selection_partial_sort comparer (length xs) xs"

definition int_compare :: "int \<Rightarrow> int \<Rightarrow> int" where
  "int_compare x y = (if x < y then - 1 else if y < x then 1 else 0)"

definition budget_monitor :: "nat \<Rightarrow> error + nat" where
  "budget_monitor m = (if m = 0 then Inl Cancellation else Inr (m - 1))"

definition reference_collaborators :: "(int \<times> int, int, nat) collaborators" where
  "reference_collaborators =
     \<lparr>nvalue_compare = int_compare,
      isActive = (\<lambda>t. True),
      countdownProgress = budget_monitor,
      std_sort = selection_sort,
      std_partial_sort = selection_partial_sort\<rparr>"

subsection \<open>The standard algorithms as the GNU C++ library runs them\<close>

text \<open>
  The executor is built against libstdc++. Its \<^verbatim>\<open>std::partial_sort\<close> is \<^verbatim>\<open>__heap_select\<close>
  followed by \<^verbatim>\<open>__sort_heap\<close> (\<^verbatim>\<open>bits/stl_heap.h\<close>, \<^verbatim>\<open>bits/stl_algo.h\<close>); its
  \<^verbatim>\<open>std::sort\<close> is, on at most 16 elements, \<^verbatim>\<open>__insertion_sort\<close> alone (the introsort
  loop runs above that threshold only). The vector is a list, an iterator \<^verbatim>\<open>first + i\<close>
  is the index \<open>i\<close>, and an exception of the comparator leaves the algorithm. The
  functions below are these loops, statement by statement; they run the executor on
  concrete inputs as the compiled program does.
\<close>

text \<open>
  \<^verbatim>\<open>__push_heap\<close>:
  \<^verbatim>\<open>while (holeIndex > topIndex && comp(first + parent, value))\<close>.
\<close>

function push_heap ::
  "('t \<Rightarrow> 't \<Rightarrow> error + bool) \<Rightarrow> 't list \<Rightarrow> nat \<Rightarrow> nat \<Rightarrow> 't \<Rightarrow> error + 't list"
where
  "push_heap comparer v holeIndex topIndex val =
     (if holeIndex > topIndex then
        (case comparer (v ! ((holeIndex - 1) div 2)) val of
           Inl e \<Rightarrow> Inl e
         | Inr True \<Rightarrow>
             push_heap comparer (v[holeIndex := v ! ((holeIndex - 1) div 2)])
               ((holeIndex - 1) div 2) topIndex val
         | Inr False \<Rightarrow> Inr (v[holeIndex := val]))
      else Inr (v[holeIndex := val]))"
  by pat_completeness auto
termination
  by (relation "measure (\<lambda>(comparer, v, holeIndex, topIndex, val). holeIndex)") auto

text \<open>
  The first loop of \<^verbatim>\<open>__adjust_heap\<close>, \<^verbatim>\<open>while (secondChild < (len - 1) / 2)\<close>; at its
  head \<open>holeIndex\<close> and \<open>secondChild\<close> are equal. It returns the vector and the hole.
\<close>

function sift_down ::
  "('t \<Rightarrow> 't \<Rightarrow> error + bool) \<Rightarrow> 't list \<Rightarrow> nat \<Rightarrow> nat \<Rightarrow> error + ('t list \<times> nat)"
where
  "sift_down comparer v len holeIndex =
     (if holeIndex < (len - 1) div 2 then
        (case comparer (v ! (2 * (holeIndex + 1))) (v ! (2 * (holeIndex + 1) - 1)) of
           Inl e \<Rightarrow> Inl e
         | Inr True \<Rightarrow>
             sift_down comparer (v[holeIndex := v ! (2 * (holeIndex + 1) - 1)]) len
               (2 * (holeIndex + 1) - 1)
         | Inr False \<Rightarrow>
             sift_down comparer (v[holeIndex := v ! (2 * (holeIndex + 1))]) len
               (2 * (holeIndex + 1)))
      else Inr (v, holeIndex))"
  by pat_completeness auto
termination
  by (relation "measure (\<lambda>(comparer, v, len, holeIndex). len - holeIndex)") auto

text \<open>
  \<^verbatim>\<open>__adjust_heap\<close>: the loop, the step for a last parent with one child
  (\<^verbatim>\<open>(len & 1) == 0 && secondChild == (len - 2) / 2\<close>, which no index meets when \<open>len\<close> is
  0), then \<^verbatim>\<open>__push_heap\<close>.
\<close>

definition adjust_heap ::
  "('t \<Rightarrow> 't \<Rightarrow> error + bool) \<Rightarrow> 't list \<Rightarrow> nat \<Rightarrow> nat \<Rightarrow> 't \<Rightarrow> error + 't list"
where
  "adjust_heap comparer v holeIndex len val =
     (case sift_down comparer v len holeIndex of
        Inl e \<Rightarrow> Inl e
      | Inr (v1, secondChild) \<Rightarrow>
          if len mod 2 = 0 \<and> 2 \<le> len \<and> secondChild = (len - 2) div 2
          then push_heap comparer (v1[secondChild := v1 ! (2 * (secondChild + 1) - 1)])
                 (2 * (secondChild + 1) - 1) holeIndex val
          else push_heap comparer v1 secondChild holeIndex val)"

text \<open>\<^verbatim>\<open>__make_heap\<close> on the first \<open>len\<close> elements: parents from \<open>(len - 2) / 2\<close> down to 0.\<close>

fun make_heap_from ::
  "('t \<Rightarrow> 't \<Rightarrow> error + bool) \<Rightarrow> 't list \<Rightarrow> nat \<Rightarrow> nat \<Rightarrow> error + 't list"
where
  "make_heap_from comparer v len 0 = adjust_heap comparer v 0 len (v ! 0)"
| "make_heap_from comparer v len (Suc parent) =
     (case adjust_heap comparer v (Suc parent) len (v ! Suc parent) of
        Inl e \<Rightarrow> Inl e
      | Inr v' \<Rightarrow> make_heap_from comparer v' len parent)"

definition make_heap ::
  "('t \<Rightarrow> 't \<Rightarrow> error + bool) \<Rightarrow> 't list \<Rightarrow> nat \<Rightarrow> error + 't list"
where
  "make_heap comparer v len =
     (if len < 2 then Inr v else make_heap_from comparer v len ((len - 2) div 2))"

text \<open>\<^verbatim>\<open>__pop_heap(first, last, result)\<close>.\<close>

definition pop_heap ::
  "('t \<Rightarrow> 't \<Rightarrow> error + bool) \<Rightarrow> 't list \<Rightarrow> nat \<Rightarrow> nat \<Rightarrow> error + 't list"
where
  "pop_heap comparer v lastIndex result =
     adjust_heap comparer (v[result := v ! 0]) 0 lastIndex (v ! result)"

text \<open>
  \<^verbatim>\<open>__heap_select\<close>: after \<^verbatim>\<open>__make_heap\<close>, the loop
  \<^verbatim>\<open>for (i = middle; i < last; ++i) if (comp(i, first)) __pop_heap(first, middle, i)\<close>
  over the indices it visits.
\<close>

fun heap_select_loop ::
  "('t \<Rightarrow> 't \<Rightarrow> error + bool) \<Rightarrow> nat \<Rightarrow> nat list \<Rightarrow> 't list \<Rightarrow> error + 't list"
where
  "heap_select_loop comparer middle [] v = Inr v"
| "heap_select_loop comparer middle (i # rest) v =
     (case comparer (v ! i) (v ! 0) of
        Inl e \<Rightarrow> Inl e
      | Inr True \<Rightarrow>
          (case pop_heap comparer v middle i of
             Inl e \<Rightarrow> Inl e
           | Inr v' \<Rightarrow> heap_select_loop comparer middle rest v')
      | Inr False \<Rightarrow> heap_select_loop comparer middle rest v)"

definition heap_select ::
  "('t \<Rightarrow> 't \<Rightarrow> error + bool) \<Rightarrow> nat \<Rightarrow> 't list \<Rightarrow> error + 't list"
where
  "heap_select comparer middle v =
     (case make_heap comparer v middle of
        Inl e \<Rightarrow> Inl e
      | Inr v' \<Rightarrow> heap_select_loop comparer middle [middle..<length v'] v')"

text \<open>\<^verbatim>\<open>__sort_heap\<close>: \<^verbatim>\<open>while (last - first > 1) { --last; __pop_heap(first, last, last); }\<close>.\<close>

fun sort_heap ::
  "('t \<Rightarrow> 't \<Rightarrow> error + bool) \<Rightarrow> 't list \<Rightarrow> nat \<Rightarrow> error + 't list"
where
  "sort_heap comparer v 0 = Inr v"
| "sort_heap comparer v (Suc lastIndex) =
     (if Suc lastIndex > 1 then
        (case pop_heap comparer v lastIndex lastIndex of
           Inl e \<Rightarrow> Inl e
         | Inr v' \<Rightarrow> sort_heap comparer v' lastIndex)
      else Inr v)"

definition libstdcxx_partial_sort ::
  "('t \<Rightarrow> 't \<Rightarrow> error + bool) \<Rightarrow> nat \<Rightarrow> 't list \<Rightarrow> error + 't list"
where
  "libstdcxx_partial_sort comparer middle v =
     (case heap_select comparer middle v of
        Inl e \<Rightarrow> Inl e
      | Inr v' \<Rightarrow> sort_heap comparer v' middle)"

text \<open>
  \<^verbatim>\<open>__unguarded_linear_insert\<close>: \<^verbatim>\<open>while (comp(val, next))\<close> with \<open>next\<close> the index before \<open>lastIndex\<close>. It
  is called only where the first element does not come after \<open>val\<close>; a step before the
  first element would be outside the vector.
\<close>

function unguarded_linear_insert ::
  "('t \<Rightarrow> 't \<Rightarrow> error + bool) \<Rightarrow> 't list \<Rightarrow> nat \<Rightarrow> 't \<Rightarrow> error + 't list"
where
  "unguarded_linear_insert comparer v lastIndex val =
     (if lastIndex = 0 then Inl OutOfRange
      else (case comparer val (v ! (lastIndex - 1)) of
              Inl e \<Rightarrow> Inl e
            | Inr True \<Rightarrow>
                unguarded_linear_insert comparer (v[lastIndex := v ! (lastIndex - 1)])
                  (lastIndex - 1) val
            | Inr False \<Rightarrow> Inr (v[lastIndex := val])))"
  by pat_completeness auto
termination
  by (relation "measure (\<lambda>(comparer, v, lastIndex, val). lastIndex)") auto

text \<open>
  \<^verbatim>\<open>__insertion_sort\<close>: for each \<open>i\<close> from 1, an element that precedes the first one is
  moved to the front (\<^verbatim>\<open>move_backward\<close>), any other is inserted linearly.
\<close>

fun insertion_loop ::
  "('t \<Rightarrow> 't \<Rightarrow> error + bool) \<Rightarrow> nat list \<Rightarrow> 't list \<Rightarrow> error + 't list"
where
  "insertion_loop comparer [] v = Inr v"
| "insertion_loop comparer (i # rest) v =
     (case comparer (v ! i) (v ! 0) of
        Inl e \<Rightarrow> Inl e
      | Inr True \<Rightarrow> insertion_loop comparer rest ((v ! i) # take i v @ drop (Suc i) v)
      | Inr False \<Rightarrow>
          (case unguarded_linear_insert comparer v i (v ! i) of
             Inl e \<Rightarrow> Inl e
           | Inr v' \<Rightarrow> insertion_loop comparer rest v'))"

definition insertion_sort ::
  "('t \<Rightarrow> 't \<Rightarrow> error + bool) \<Rightarrow> 't list \<Rightarrow> error + 't list"
where
  "insertion_sort comparer v = insertion_loop comparer [1..<length v] v"

text \<open>
  The collaborators with the library's algorithms; \<open>std_sort\<close> is the library's on
  vectors of at most 16 elements.
\<close>

definition libstdcxx_collaborators :: "(int \<times> int, int, nat) collaborators" where
  "libstdcxx_collaborators =
     \<lparr>nvalue_compare = int_compare,
      isActive = (\<lambda>t. True),
      countdownProgress = budget_monitor,
      std_sort = insertion_sort,
      std_partial_sort = libstdcxx_partial_sort\<rparr>"

text \<open>
  An initialised executor over one input table of two integer columns, with an empty
  output table; \<open>lim\<close> is the inlined limit node, if any.
\<close>

definition example_node ::
  "(int \<times> int) list \<Rightarrow> (int \<times> int \<Rightarrow> int) list \<Rightarrow> SortDirectionType list
   \<Rightarrow> (unit, int \<times> int, int, unit) OrderByPlanNode"
where
  "example_node ts keys dirs =
     \<lparr>getInputTables = [Some \<lparr>schema = (), tuples = ts\<rparr>],
      getChildren = [Some ()],
      getInlinePlanNode_LIMIT = None,
      getSortExpressions = keys,
      getSortDirections = dirs,
      getOutputTable = Some \<lparr>schema = (), tuples = []\<rparr>\<rparr>"

definition example_executor ::
  "(int \<times> int) list \<Rightarrow> (int \<times> int \<Rightarrow> int) list \<Rightarrow> SortDirectionType list
   \<Rightarrow> (int \<times> int) option \<Rightarrow> (unit, int \<times> int, int, unit) OrderByExecutor"
where
  "example_executor ts keys dirs lim =
     \<lparr>m_abstractNode = OrderBy (example_node ts keys dirs),
      limit_node = map_option (\<lambda>w params. w) lim\<rparr>"

section \<open>Properties\<close>

subsection \<open>The loops and the glue of p\_execute\<close>

lemma materialize_result:
  "materialize E its xs m = Inr (ys, m') \<Longrightarrow> ys = xs @ its"
proof (induction its arbitrary: xs m)
  case Nil
  then show ?case by simp
next
  case (Cons a its)
  from Cons.prems obtain m1 where
    "materialize E its (xs @ [a]) m1 = Inr (ys, m')"
    by (auto split: sum.splits if_splits)
  from Cons.IH [OF this] show ?case by simp
qed

lemma emit_prefix:
  "emit E limit offset ys c s (out, m) = (r, out', m') \<Longrightarrow>
   \<exists>n. out' = out @ take n (drop (nat (offset - s)) ys) \<and>
       (0 \<le> limit \<longrightarrow> int n \<le> max 1 (limit - c))"
proof (induction ys arbitrary: c s out m)
  case Nil
  then show ?case by (intro exI [of _ 0]) auto
next
  case (Cons y ys)
  show ?case
  proof (cases "s < offset")
    case True
    then have d: "nat (offset - s) = Suc (nat (offset - (s + 1)))" by simp
    from Cons.prems True
    have "emit E limit offset ys c (s + 1) (out, m) = (r, out', m')" by simp
    from Cons.IH [OF this] show ?thesis unfolding d by simp
  next
    case False
    then have d: "nat (offset - s) = 0" by simp
    show ?thesis
    proof (cases "countdownProgress E m")
      case (Inl e)
      with Cons.prems False have "out' = out @ [y]" by auto
      then show ?thesis unfolding d by (intro exI [of _ 1]) simp
    next
      case (Inr m1)
      show ?thesis
      proof (cases "limit \<ge> 0 \<and> c + 1 \<ge> limit")
        case True
        with Cons.prems False Inr have o: "out' = out @ [y]" by auto
        then show ?thesis unfolding d by (intro exI [of _ 1]) simp
      next
        case stop: False
        with Cons.prems False Inr
        have "emit E limit offset ys (if limit \<ge> 0 then c + 1 else c) s (out @ [y], m1) = (r, out', m')"
          by simp
        from Cons.IH [OF this] obtain n where
          n: "out' = (out @ [y]) @ take n (drop (nat (offset - s)) ys)"
            "0 \<le> limit \<longrightarrow> int n \<le> max 1 (limit - (if limit \<ge> 0 then c + 1 else c))"
          by blast
        from n(2) stop have "0 \<le> limit \<longrightarrow> int (Suc n) \<le> max 1 (limit - c)" by auto
        with n(1) show ?thesis unfolding d
          by (intro exI [of _ "Suc n"]) (simp add: d)
      qed
    qed
  qed
qed

lemma emit_complete:
  "emit E limit offset ys c s (out, m) = (None, out', m') \<Longrightarrow>
   out' = out @ (if 0 \<le> limit then take (nat (max 1 (limit - c))) (drop (nat (offset - s)) ys)
                 else drop (nat (offset - s)) ys)"
proof (induction ys arbitrary: c s out m)
  case Nil
  then show ?case by auto
next
  case (Cons y ys)
  show ?case
  proof (cases "s < offset")
    case True
    then have d: "nat (offset - s) = Suc (nat (offset - (s + 1)))" by simp
    from Cons.prems True
    have "emit E limit offset ys c (s + 1) (out, m) = (None, out', m')" by simp
    from Cons.IH [OF this] show ?thesis unfolding d by simp
  next
    case False
    then have d: "nat (offset - s) = 0" by simp
    show ?thesis
    proof (cases "countdownProgress E m")
      case (Inl e)
      with Cons.prems False show ?thesis by auto
    next
      case (Inr m1)
      show ?thesis
      proof (cases "limit \<ge> 0 \<and> c + 1 \<ge> limit")
        case True
        with Cons.prems False Inr have o: "out' = out @ [y]" by auto
        from True have "nat (max 1 (limit - c)) = 1" by auto
        with o True show ?thesis unfolding d by simp
      next
        case stop: False
        with Cons.prems False Inr
        have "emit E limit offset ys (if limit \<ge> 0 then c + 1 else c) s (out @ [y], m1) = (None, out', m')"
          by simp
        from Cons.IH [OF this] have
          n: "out' = (out @ [y]) @
              (if 0 \<le> limit then take (nat (max 1 (limit - (if limit \<ge> 0 then c + 1 else c)))) (drop (nat (offset - s)) ys)
               else drop (nat (offset - s)) ys)" .
        show ?thesis
        proof (cases "0 \<le> limit")
          case True
          with stop have e: "max 1 (limit - c) = limit - c" "max 1 (limit - (c + 1)) = limit - (c + 1)"
            "nat (limit - c) = Suc (nat (limit - (c + 1)))"
            by auto
          from n True have "out' = (out @ [y]) @ take (nat (limit - (c + 1))) (drop (nat (offset - s)) ys)"
            by (simp add: e(2))
          with True show ?thesis unfolding d by (simp add: e(1) e(3))
        next
          case False
          with n show ?thesis unfolding d by simp
        qed
      qed
    qed
  qed
qed

lemma emit_from_start:
  assumes "emit E limit offset ys 0 0 (out, m) = (r, out', m')"
  shows "\<exists>n. out' = out @ take n (emitted_slice limit offset ys) \<and>
             (r = None \<longrightarrow> out' = out @ emitted_slice limit offset ys)"
proof -
  from emit_prefix [OF assms] obtain n where
    n: "out' = out @ take n (drop (nat offset) ys)" "0 \<le> limit \<longrightarrow> int n \<le> max 1 limit"
    by auto
  have c: "r = None \<longrightarrow> out' = out @ emitted_slice limit offset ys"
    using emit_complete [of E limit offset ys 0 0 out m out' m'] assms
    by (auto simp: emitted_slice_def)
  have "take n (drop (nat offset) ys) = take n (emitted_slice limit offset ys)"
  proof (cases "0 \<le> limit")
    case True
    with n(2) have "n \<le> nat (max 1 limit)" by auto
    then show ?thesis using True by (simp add: emitted_slice_def min_absorb1)
  next
    case False
    then show ?thesis by (simp add: emitted_slice_def)
  qed
  with n(1) c show ?thesis by auto
qed


lemma getOutputTable_cleanup [simp]:
  "getOutputTable (cleanupInputTempTable node) = getOutputTable node"
  by (simp add: cleanupInputTempTable_def split: list.splits option.splits)

lemma output_tuples_set_output [simp]:
  "output_tuples (ex\<lparr>m_abstractNode := OrderBy (set_output node ot out)\<rparr>) = out"
  "output_tuples (ex\<lparr>m_abstractNode := OrderBy (cleanupInputTempTable (set_output node ot out))\<rparr>) = out"
  by (simp_all add: output_tuples_def set_output_def)

lemma p_execute_emits:
  assumes run: "p_execute E params ex m = (r, ex', m')"
    and node: "m_abstractNode ex = OrderBy node"
    and inp: "getInputTable node = Some input_table"
    and win: "resolve_window (limit_node ex) params = (limit, offset)"
  shows "(output_tuples ex' = output_tuples ex \<and> (\<forall>b. r \<noteq> Inr b)) \<or>
         (\<exists>ys n. length (getSortExpressions node) = length (getSortDirections node) \<and>
            order_stage E (TupleComparer_op (nvalue_compare E) (getSortExpressions node)
              (getSortDirections node)) limit offset (tuples input_table) = Inr ys \<and>
            output_tuples ex' = output_tuples ex @ take n (emitted_slice limit offset ys) \<and>
            (\<forall>b. r = Inr b \<longrightarrow> output_tuples ex' = output_tuples ex @ emitted_slice limit offset ys))"
proof (cases "getOutputTable node")
  case None
  with run node show ?thesis by (auto simp: p_execute_def)
next
  case (Some output_table)
  then have out0: "output_tuples ex = tuples output_table"
    using node by (simp add: output_tuples_def)
  show ?thesis
  proof (cases "materialize E (tuples input_table) [] m")
    case (Inl e)
    with run node Some inp win show ?thesis by (auto simp: p_execute_def)
  next
    case (Inr p)
    then obtain xs m1 where mat: "materialize E (tuples input_table) [] m = Inr (xs, m1)"
      by (cases p) auto
    from materialize_result [OF mat] have xs: "xs = tuples input_table" by simp
    show ?thesis
    proof (cases "length (getSortExpressions node) = length (getSortDirections node)")
      case False
      with run node Some inp win mat show ?thesis
        by (auto simp: p_execute_def TupleComparer_def)
    next
      case len: True
      let ?cmp = "TupleComparer_op (nvalue_compare E) (getSortExpressions node) (getSortDirections node)"
      show ?thesis
      proof (cases "order_stage E ?cmp limit offset xs")
        case (Inl e)
        with run node Some inp win mat len show ?thesis
          by (auto simp: p_execute_def TupleComparer_def)
      next
        case ord: (Inr ys)
        obtain r2 out m2 where em: "emit E limit offset ys 0 0 (tuples output_table, m1) = (r2, out, m2)"
          by (cases "emit E limit offset ys 0 0 (tuples output_table, m1)") auto
        from emit_from_start [OF em] obtain n where
          n: "out = tuples output_table @ take n (emitted_slice limit offset ys)"
             "r2 = None \<longrightarrow> out = tuples output_table @ emitted_slice limit offset ys"
          by blast
        from run node Some inp win mat len ord em
        have "output_tuples ex' = out \<and> (\<forall>b. r = Inr b \<longrightarrow> r2 = None)"
          by (cases r2) (auto simp: p_execute_def TupleComparer_def)
        with n ord len out0 xs show ?thesis by auto
      qed
    qed
  qed
qed



lemma op_short_circuit:
  "length keys = length dirs \<Longrightarrow> i < length keys \<Longrightarrow> cmp ((keys ! i) ta) ((keys ! i) tb) \<noteq> 0 \<Longrightarrow>
   TupleComparer_op cmp keys dirs ta tb =
   TupleComparer_op cmp (take (Suc i) keys) (take (Suc i) dirs) ta tb"
proof (induction keys dirs arbitrary: i rule: list_induct2)
  case Nil
  then show ?case by simp
next
  case (Cons k ks d ds)
  show ?case
  proof (cases i)
    case 0
    with Cons.prems show ?thesis by (auto simp: Let_def)
  next
    case (Suc j)
    with Cons.prems have "j < length ks" "cmp ((ks ! j) ta) ((ks ! j) tb) \<noteq> 0" by auto
    from Cons.IH [OF this] Suc show ?thesis by (simp add: Let_def)
  qed
qed

lemma op_error_only_if:
  "length keys = length dirs \<Longrightarrow> TupleComparer_op cmp keys dirs ta tb = Inl e \<Longrightarrow>
   \<exists>i<length dirs. \<not> valid_direction (dirs ! i) \<and>
      (\<forall>j<i. valid_direction (dirs ! j) \<and> cmp ((keys ! j) ta) ((keys ! j) tb) = 0)"
proof (induction keys dirs rule: list_induct2)
  case Nil
  then show ?case by simp
next
  case (Cons k ks d ds)
  show ?case
  proof (cases "valid_direction d")
    case False
    then show ?thesis by (intro exI [of _ 0]) simp
  next
    case True
    with Cons.prems have z: "cmp (k ta) (k tb) = 0" and "TupleComparer_op cmp ks ds ta tb = Inl e"
      by (auto simp: valid_direction_def Let_def split: if_splits)
    from Cons.IH [OF this(2)] obtain i where
      i: "i < length ds" "\<not> valid_direction (ds ! i)"
         "\<forall>j<i. valid_direction (ds ! j) \<and> cmp ((ks ! j) ta) ((ks ! j) tb) = 0"
      by blast
    show ?thesis
    proof (intro exI [of _ "Suc i"] conjI allI impI)
      fix j assume "j < Suc i"
      then show "valid_direction ((d # ds) ! j)" "cmp (((k # ks) ! j) ta) (((k # ks) ! j) tb) = 0"
        using i(3) True z by (cases j; simp)+
    qed (use i in simp_all)
  qed
qed

lemma op_error_if:
  "length keys = length dirs \<Longrightarrow> i < length dirs \<Longrightarrow> \<not> valid_direction (dirs ! i) \<Longrightarrow>
   \<forall>j<i. cmp ((keys ! j) ta) ((keys ! j) tb) = 0 \<Longrightarrow>
   TupleComparer_op cmp keys dirs ta tb =
     Inl (SerializableEEException ''Attempted to sort using SORT_DIRECTION_TYPE_INVALID'')"
proof (induction keys dirs arbitrary: i rule: list_induct2)
  case Nil
  then show ?case by simp
next
  case (Cons k ks d ds)
  show ?case
  proof (cases i)
    case 0
    with Cons.prems show ?thesis by (auto simp: valid_direction_def Let_def)
  next
    case (Suc i')
    with Cons.prems have z: "cmp (k ta) (k tb) = 0" by auto
    from Suc Cons.prems have "i' < length ds" "\<not> valid_direction (ds ! i')"
      "\<forall>j<i'. cmp ((ks ! j) ta) ((ks ! j) tb) = 0" by auto
    from Cons.IH [OF this] z show ?thesis by (simp add: Let_def)
  qed
qed

lemma op_lex:
  "length keys = length dirs \<Longrightarrow> \<forall>d\<in>set dirs. valid_direction d \<Longrightarrow>
   TupleComparer_op cmp keys dirs ta tb = Inr (lex_precedes cmp (zip keys dirs) ta tb)"
proof (induction keys dirs rule: list_induct2)
  case Nil
  then show ?case by (simp add: lex_precedes_def)
next
  case (Cons k ks d ds)
  then have "TupleComparer_op cmp ks ds ta tb = Inr (lex_precedes cmp (zip ks ds) ta tb)" by simp
  with Cons.prems show ?case
    by (auto simp: lex_precedes_def adjusted_cmp_def valid_direction_def Let_def)
qed

lemma op_ties:
  "length keys = length dirs \<Longrightarrow> \<forall>d\<in>set dirs. valid_direction d \<Longrightarrow>
   \<forall>k\<in>set keys. cmp (k ta) (k tb) = 0 \<Longrightarrow>
   TupleComparer_op cmp keys dirs ta tb = Inr False"
  by (induction keys dirs rule: list_induct2) (auto simp: valid_direction_def Let_def)


subsection \<open>The comparator\<close>

text \<open>
  Claim C10. The comparator short-circuits. With key and direction vectors of one size:
  if the raw comparison of entry \<open>i\<close> is not zero, the comparator answers (a verdict or
  the exception) as it does on the entries up to and including \<open>i\<close> alone; and if it
  raises, there is an entry \<open>i\<close> with an invalid direction such that every entry before
  it has a valid direction and a raw comparison of zero.
\<close>

theorem comparer_short_circuits:
  assumes "length keys = length dirs"
  shows "(\<forall>i<length keys. cmp ((keys ! i) ta) ((keys ! i) tb) \<noteq> 0 \<longrightarrow>
            TupleComparer_op cmp keys dirs ta tb =
            TupleComparer_op cmp (take (Suc i) keys) (take (Suc i) dirs) ta tb) \<and>
         (\<forall>e. TupleComparer_op cmp keys dirs ta tb = Inl e \<longrightarrow>
            (\<exists>i<length dirs. \<not> valid_direction (dirs ! i) \<and>
               (\<forall>j<i. valid_direction (dirs ! j) \<and> cmp ((keys ! j) ta) ((keys ! j) tb) = 0)))"
  using assms op_short_circuit [of keys dirs _ cmp ta tb] op_error_only_if [of keys dirs cmp ta tb]
  by blast

theorem comparer_short_circuits_witness:
  "TupleComparer_op int_compare [fst, snd, fst] [SORT_DIRECTION_TYPE_ASC, SORT_DIRECTION_TYPE_DESC, SORT_DIRECTION_TYPE_INVALID] (1, 2) (1, 3) =
   TupleComparer_op int_compare [fst, snd] [SORT_DIRECTION_TYPE_ASC, SORT_DIRECTION_TYPE_DESC] (1, 2) (1, 3) \<and>
   TupleComparer_op int_compare [fst, snd] [SORT_DIRECTION_TYPE_ASC, SORT_DIRECTION_TYPE_DESC] (1, 2) (1, 3) = Inr False \<and>
   (\<exists>e. TupleComparer_op int_compare [fst, snd, fst] [SORT_DIRECTION_TYPE_ASC, SORT_DIRECTION_TYPE_DESC, SORT_DIRECTION_TYPE_INVALID] (1, 2) (1, 2) = Inl e) \<and>
   (\<exists>i<3. \<not> valid_direction ([SORT_DIRECTION_TYPE_ASC, SORT_DIRECTION_TYPE_DESC, SORT_DIRECTION_TYPE_INVALID] ! i) \<and>
      (\<forall>j<i. valid_direction ([SORT_DIRECTION_TYPE_ASC, SORT_DIRECTION_TYPE_DESC, SORT_DIRECTION_TYPE_INVALID] ! j) \<and>
         int_compare (([fst, snd, fst] ! j) (1, 2)) (([fst, snd, fst] ! j) (1, 2)) = 0))"
proof -
  let ?keys = "[fst, snd, fst] :: (int \<times> int \<Rightarrow> int) list"
  let ?dirs = "[SORT_DIRECTION_TYPE_ASC, SORT_DIRECTION_TYPE_DESC, SORT_DIRECTION_TYPE_INVALID]"
  have len: "length ?keys = length ?dirs" by simp
  note a = comparer_short_circuits [OF len, of int_compare "(1, 2)" "(1, 3)"]
  note b = comparer_short_circuits [OF len, of int_compare "(1, 2)" "(1, 2)"]
  have nz: "int_compare ((?keys ! 1) (1, 2)) ((?keys ! 1) (1, 3)) \<noteq> 0"
    by (simp add: int_compare_def)
  have i1: "1 < length ?keys" by simp
  from a i1 nz have "TupleComparer_op int_compare ?keys ?dirs (1, 2) (1, 3) =
     TupleComparer_op int_compare (take (Suc 1) ?keys) (take (Suc 1) ?dirs) (1, 2) (1, 3)"
    by blast
  then have 1: "TupleComparer_op int_compare ?keys ?dirs (1, 2) (1, 3) =
     TupleComparer_op int_compare [fst, snd] [SORT_DIRECTION_TYPE_ASC, SORT_DIRECTION_TYPE_DESC]
       (1, 2) (1, 3)"
    by (simp only: take_Suc_Cons take_0 One_nat_def)
  have 2: "TupleComparer_op int_compare [fst, snd] [SORT_DIRECTION_TYPE_ASC, SORT_DIRECTION_TYPE_DESC] (1, 2) (1, 3) = Inr False"
    by (simp add: int_compare_def)
  have 3: "TupleComparer_op int_compare ?keys ?dirs (1, 2) (1, 2) =
      Inl (SerializableEEException ''Attempted to sort using SORT_DIRECTION_TYPE_INVALID'')"
    by (simp add: int_compare_def)
  have l3: "length ?dirs = 3" by simp
  from b 3 have "\<exists>i<length ?dirs. \<not> valid_direction (?dirs ! i) \<and>
      (\<forall>j<i. valid_direction (?dirs ! j) \<and> int_compare ((?keys ! j) (1, 2)) ((?keys ! j) (1, 2)) = 0)"
    by blast
  then have 4: "\<exists>i<3. \<not> valid_direction (?dirs ! i) \<and>
      (\<forall>j<i. valid_direction (?dirs ! j) \<and> int_compare ((?keys ! j) (1, 2)) ((?keys ! j) (1, 2)) = 0)"
    unfolding l3 .
  from 3 have 5: "\<exists>e. TupleComparer_op int_compare ?keys ?dirs (1, 2) (1, 2) = Inl e" by blast
  from 1 2 5 4 show ?thesis by (intro conjI)
qed

text \<open>
  Claim C6, as stated, fails: under a specification that contains an invalid direction
  the comparator returns a verdict when an earlier entry decides. Here the first key is
  ascending and differs, the second direction is invalid.
\<close>

theorem invalid_direction_counterexample:
  "TupleComparer_op int_compare [fst, snd] [SORT_DIRECTION_TYPE_ASC, SORT_DIRECTION_TYPE_INVALID]
     (1, 2) (2, 3) = Inr True"
  by (simp add: int_compare_def)

text \<open>
  Claim C6, amended. If entry \<open>i\<close> has a direction outside ascending and descending and
  the raw comparisons of all entries before \<open>i\<close> are zero, the comparator raises the
  exception labelled \<^verbatim>\<open>SORT_DIRECTION_TYPE_INVALID\<close> instead of returning a verdict.
\<close>

theorem invalid_direction_raises:
  assumes "length keys = length dirs" and "i < length dirs" and "\<not> valid_direction (dirs ! i)"
    and "\<forall>j<i. cmp ((keys ! j) ta) ((keys ! j) tb) = 0"
  shows "TupleComparer_op cmp keys dirs ta tb =
           Inl (SerializableEEException ''Attempted to sort using SORT_DIRECTION_TYPE_INVALID'')"
  using assms by (rule op_error_if)

theorem invalid_direction_raises_witness:
  "TupleComparer_op int_compare [fst, snd] [SORT_DIRECTION_TYPE_ASC, SORT_DIRECTION_TYPE_INVALID]
     (1, 2) (1, 3) =
   Inl (SerializableEEException ''Attempted to sort using SORT_DIRECTION_TYPE_INVALID'')"
proof -
  let ?keys = "[fst, snd] :: (int \<times> int \<Rightarrow> int) list"
  let ?dirs = "[SORT_DIRECTION_TYPE_ASC, SORT_DIRECTION_TYPE_INVALID]"
  have 1: "length ?keys = length ?dirs" and 2: "1 < length ?dirs"
    and 3: "\<not> valid_direction (?dirs ! 1)"
    and 4: "\<forall>j<1. int_compare ((?keys ! j) (1, 2)) ((?keys ! j) (1, 3)) = 0"
    by (simp_all add: valid_direction_def int_compare_def)
  from 1 2 3 4 show ?thesis
    by (rule invalid_direction_raises [of ?keys ?dirs 1 int_compare "(1, 2)" "(1, 3)"])
qed

subsection \<open>The return value of p\_execute\<close>

text \<open>
  Claim C8. Whenever \<open>p_execute\<close> returns normally it returns true: every failure leaves
  it as an exception (\<open>Inl\<close>), never as a false return.
\<close>

theorem p_execute_returns_true:
  "p_execute E params ex m = (Inr b, ex', m') \<Longrightarrow> b"
  by (auto simp: p_execute_def split: AbstractPlanNode.splits option.splits prod.splits sum.splits)

theorem p_execute_returns_true_witness:
  "\<exists>b ex' m'. p_execute reference_collaborators ()
     (example_executor [(5, 0), (1, 1), (3, 0)] [fst] [SORT_DIRECTION_TYPE_ASC] None) 10 =
       (Inr b, ex', m') \<and> b"
proof -
  let ?run = "p_execute reference_collaborators ()
     (example_executor [(5, 0), (1, 1), (3, 0)] [fst] [SORT_DIRECTION_TYPE_ASC] None) (10::nat)"
  have "fst ?run = Inr True" by code_simp
  then have run: "?run = (Inr True, fst (snd ?run), snd (snd ?run))"
    by (metis prod.collapse)
  from p_execute_returns_true [OF run] run show ?thesis by blast
qed


subsection \<open>The ordering stage\<close>

lemma mset_take_drop_subset:
  "mset (take n xs) \<subseteq># mset xs" "mset (drop n xs) \<subseteq># mset xs"
proof -
  have "mset xs = mset (take n xs) + mset (drop n xs)"
    by (metis append_take_drop_id mset_append)
  then show "mset (take n xs) \<subseteq># mset xs" "mset (drop n xs) \<subseteq># mset xs"
    by simp_all
qed

lemma emitted_slice_subset: "mset (take n (emitted_slice limit offset ys)) \<subseteq># mset ys"
proof -
  have "mset (emitted_slice limit offset ys) \<subseteq># mset ys"
    unfolding emitted_slice_def
    by (auto intro: subset_mset.order_trans mset_take_drop_subset)
  with mset_take_drop_subset(1) [of n "emitted_slice limit offset ys"]
  show ?thesis by (rule subset_mset.order_trans)
qed

lemma order_stage_mset:
  assumes "std_contract E comparer xs" and "order_stage E comparer limit offset xs = Inr ys"
  shows "mset ys = mset xs"
proof (cases "limit \<ge> 0 \<and> limit + offset < int (length xs)")
  case True
  with assms(2) have nn: "0 \<le> limit + offset"
    and ps: "std_partial_sort E comparer (nat (limit + offset)) xs = Inr ys"
    by (auto simp: order_stage_def split: if_splits)
  from True nn have "nat (limit + offset) \<in> set [0..<Suc (length xs)]" by auto
  with assms(1) have "partial_sort_post comparer (nat (limit + offset)) xs
      (std_partial_sort E comparer (nat (limit + offset)) xs)"
    unfolding std_contract_def by blast
  with ps show ?thesis by (simp add: partial_sort_post_def)
next
  case False
  with assms(2) have "std_sort E comparer xs = Inr ys" by (auto simp: order_stage_def)
  with assms(1) show ?thesis by (auto simp: std_contract_def sort_post_def)
qed

lemma order_stage_slice_sorted:
  assumes lib: "std_contract E comparer xs"
    and ord: "order_stage E comparer limit offset xs = Inr ys"
    and win: "0 \<le> limit \<longrightarrow> 0 \<le> offset"
  shows "sorted_by comparer (emitted_slice limit offset ys)"
proof (cases "limit \<ge> 0 \<and> limit + offset < int (length xs)")
  case True
  with ord win have nn: "0 \<le> limit + offset"
    and ps: "std_partial_sort E comparer (nat (limit + offset)) xs = Inr ys"
    by (auto simp: order_stage_def split: if_splits)
  from True nn have "nat (limit + offset) \<in> set [0..<Suc (length xs)]" by auto
  with lib have "partial_sort_post comparer (nat (limit + offset)) xs
      (std_partial_sort E comparer (nat (limit + offset)) xs)"
    unfolding std_contract_def by blast
  with ps have pre: "sorted_by comparer (take (nat (limit + offset)) ys)"
    by (simp add: partial_sort_post_def)
  show ?thesis
  proof (cases "limit = 0")
    case True
    then have "length (emitted_slice limit offset ys) \<le> 1"
      by (simp add: emitted_slice_def)
    then show ?thesis unfolding sorted_by_def by (rule sorted_wrt01)
  next
    case False
    with True win have l: "1 \<le> limit" "0 \<le> offset" by auto
    then have "emitted_slice limit offset ys =
        drop (nat offset) (take (nat (limit + offset)) ys)"
      by (simp add: emitted_slice_def take_drop nat_add_distrib)
    with pre show ?thesis by (simp add: sorted_by_def)
  qed
next
  case False
  with ord have "std_sort E comparer xs = Inr ys" by (auto simp: order_stage_def)
  with lib have "sorted_by comparer ys" by (auto simp: std_contract_def sort_post_def)
  then show ?thesis by (auto simp: sorted_by_def emitted_slice_def)
qed

lemma sorted_by_take: "sorted_by comparer ys \<Longrightarrow> sorted_by comparer (take n ys)"
  by (simp add: sorted_by_def)

text \<open>What \<open>p_execute\<close> appends to the output table, under the contract of the algorithms.\<close>

lemma p_execute_inserted:
  assumes run: "p_execute E params ex m = (r, ex', m')"
    and node: "m_abstractNode ex = OrderBy node"
    and inp: "getInputTable node = Some input_table"
    and lib: "std_contract E (TupleComparer_op (nvalue_compare E) (getSortExpressions node)
                (getSortDirections node)) (tuples input_table)"
  shows "\<exists>ins. output_tuples ex' = output_tuples ex @ ins \<and>
           mset ins \<subseteq># mset (tuples input_table) \<and>
           ((0 \<le> fst (resolve_window (limit_node ex) params)
               \<longrightarrow> 0 \<le> snd (resolve_window (limit_node ex) params)) \<longrightarrow>
            sorted_by (TupleComparer_op (nvalue_compare E) (getSortExpressions node)
                (getSortDirections node)) ins)"
proof -
  let ?c = "TupleComparer_op (nvalue_compare E) (getSortExpressions node) (getSortDirections node)"
  obtain limit offset where win: "resolve_window (limit_node ex) params = (limit, offset)"
    by (cases "resolve_window (limit_node ex) params") auto
  from p_execute_emits [OF run node inp win]
  show ?thesis
  proof
    assume "output_tuples ex' = output_tuples ex \<and> (\<forall>b. r \<noteq> Inr b)"
    then show ?thesis by (intro exI [of _ "[]"]) (simp add: sorted_by_def)
  next
    assume "\<exists>ys n. length (getSortExpressions node) = length (getSortDirections node) \<and>
            order_stage E ?c limit offset (tuples input_table) = Inr ys \<and>
            output_tuples ex' = output_tuples ex @ take n (emitted_slice limit offset ys) \<and>
            (\<forall>b. r = Inr b \<longrightarrow> output_tuples ex' = output_tuples ex @ emitted_slice limit offset ys)"
    then obtain ys n where ord: "order_stage E ?c limit offset (tuples input_table) = Inr ys"
      and out: "output_tuples ex' = output_tuples ex @ take n (emitted_slice limit offset ys)"
      by blast
    from order_stage_mset [OF lib ord] emitted_slice_subset [of n limit offset ys]
    have sub: "mset (take n (emitted_slice limit offset ys)) \<subseteq># mset (tuples input_table)"
      by simp
    have "(0 \<le> limit \<longrightarrow> 0 \<le> offset) \<longrightarrow> sorted_by ?c (take n (emitted_slice limit offset ys))"
      using order_stage_slice_sorted [OF lib ord] by (auto intro: sorted_by_take)
    with out sub win show ?thesis by auto
  qed
qed


lemma example_executor_simps:
  "m_abstractNode (example_executor ts keys dirs lim) = OrderBy (example_node ts keys dirs)"
  "getInputTable (example_node ts keys dirs) = Some \<lparr>schema = (), tuples = ts\<rparr>"
  "getOutputTable (example_node ts keys dirs) = Some \<lparr>schema = (), tuples = []\<rparr>"
  "getSortExpressions (example_node ts keys dirs) = keys"
  "getSortDirections (example_node ts keys dirs) = dirs"
  "resolve_window (limit_node (example_executor ts keys dirs lim)) params =
     (case lim of None \<Rightarrow> (- 1, - 1) | Some w \<Rightarrow> w)"
  "output_tuples (example_executor ts keys dirs lim) = []"
  by (simp_all add: example_executor_def example_node_def getInputTable_def resolve_window_def
        output_tuples_def split: option.splits)

lemma reference_collaborators_simps:
  "nvalue_compare reference_collaborators = int_compare"
  "isActive reference_collaborators = (\<lambda>t. True)"
  "countdownProgress reference_collaborators = budget_monitor"
  "std_sort reference_collaborators = selection_sort"
  "std_partial_sort reference_collaborators = selection_partial_sort"
  by (simp_all add: reference_collaborators_def)

lemma int_compare_antisym: "compare_antisym int_compare"
  by (simp add: compare_antisym_def int_compare_def)

subsection \<open>The output is drawn from the input\<close>

text \<open>
  Claim C9. Whatever way an execution ends, the tuples it has inserted into the output
  table form a sub-multiset of the materialized input: every inserted tuple is a tuple of
  the input table, no position of the ordered vector is inserted twice, and no tuple is
  fabricated. The standard algorithm is assumed to meet its contract on the input.
\<close>

theorem output_sub_multiset_of_input:
  assumes "p_execute E params ex m = (r, ex', m')"
    and "m_abstractNode ex = OrderBy node"
    and "getInputTable node = Some input_table"
    and "std_contract E (TupleComparer_op (nvalue_compare E) (getSortExpressions node)
           (getSortDirections node)) (tuples input_table)"
  shows "\<exists>ins. output_tuples ex' = output_tuples ex @ ins \<and>
           mset ins \<subseteq># mset (tuples input_table)"
  using p_execute_inserted [OF assms] by blast

theorem output_sub_multiset_of_input_witness:
  "output_tuples (fst (snd (p_execute reference_collaborators ()
      (example_executor [(5, 0), (1, 1), (3, 0), (1, 2), (4, 0)] [fst] [SORT_DIRECTION_TYPE_ASC]
         (Some (2, 1))) 10))) = [(1, 2), (3, 0)] \<and>
   mset [(1, 2), (3, 0)] \<subseteq># mset [(5, 0), (1, 1), (3, 0), (1, 2), (4 :: int, 0 :: int)]"
proof -
  let ?ts = "[(5, 0), (1, 1), (3, 0), (1, 2), (4 :: int, 0 :: int)]"
  let ?ex = "example_executor ?ts [fst] [SORT_DIRECTION_TYPE_ASC] (Some (2, 1))"
  let ?run = "p_execute reference_collaborators () ?ex (10 :: nat)"
  have run: "?run = (fst ?run, fst (snd ?run), snd (snd ?run))" by simp
  have lib: "std_contract reference_collaborators
     (TupleComparer_op (nvalue_compare reference_collaborators)
        (getSortExpressions (example_node ?ts [fst] [SORT_DIRECTION_TYPE_ASC]))
        (getSortDirections (example_node ?ts [fst] [SORT_DIRECTION_TYPE_ASC])))
     (tuples \<lparr>schema = (), tuples = ?ts\<rparr>)"
    by code_simp
  have out: "output_tuples (fst (snd ?run)) = [(1, 2), (3, 0)]" by code_simp
  from output_sub_multiset_of_input [OF run example_executor_simps(1) example_executor_simps(2) lib]
  obtain ins where "output_tuples (fst (snd ?run)) = output_tuples ?ex @ ins"
    "mset ins \<subseteq># mset ?ts" by auto
  with out show ?thesis by (simp add: example_executor_simps)
qed


subsection \<open>The order of the output\<close>

lemma compare_antisym_signs:
  assumes "compare_antisym cmp"
  shows "\<not> cmp x y < 0 \<Longrightarrow> cmp y x \<le> 0" and "\<not> 0 < cmp x y \<Longrightarrow> 0 \<le> cmp y x"
    and "cmp x y = 0 \<Longrightarrow> cmp y x = 0"
proof -
  from assms have a: "(cmp x y < 0) = (0 < cmp y x)" and b: "(cmp y x < 0) = (0 < cmp x y)"
    unfolding compare_antisym_def by blast+
  show "\<not> cmp x y < 0 \<Longrightarrow> cmp y x \<le> 0" using a by linarith
  show "\<not> 0 < cmp x y \<Longrightarrow> 0 \<le> cmp y x" using b by linarith
  show "cmp x y = 0 \<Longrightarrow> cmp y x = 0" using a b by linarith
qed

lemma single_key_verdict:
  assumes "TupleComparer_op cmp [k] [dir] b a = Inr False" and "compare_antisym cmp"
  shows "(dir = SORT_DIRECTION_TYPE_ASC \<longrightarrow> cmp (k a) (k b) \<le> 0) \<and>
         (dir = SORT_DIRECTION_TYPE_DESC \<longrightarrow> cmp (k a) (k b) \<ge> 0)"
proof (intro conjI impI)
  assume "dir = SORT_DIRECTION_TYPE_ASC"
  with assms(1) have "\<not> cmp (k b) (k a) < 0" by (auto simp: Let_def split: if_splits)
  then show "cmp (k a) (k b) \<le> 0" by (rule compare_antisym_signs(1) [OF assms(2)])
next
  assume "dir = SORT_DIRECTION_TYPE_DESC"
  with assms(1) have "\<not> 0 < cmp (k b) (k a)" by (auto simp: Let_def split: if_splits)
  then show "0 \<le> cmp (k a) (k b)" by (rule compare_antisym_signs(2) [OF assms(2)])
qed

lemma two_key_verdict:
  assumes "TupleComparer_op cmp [k1, k2] [SORT_DIRECTION_TYPE_ASC, SORT_DIRECTION_TYPE_DESC] b a = Inr False"
    and "compare_antisym cmp" and "cmp (k1 a) (k1 b) = 0"
  shows "cmp (k2 a) (k2 b) \<ge> 0"
proof -
  from assms(3) have "cmp (k1 b) (k1 a) = 0" by (rule compare_antisym_signs(3) [OF assms(2)])
  with assms(1) have "\<not> 0 < cmp (k2 b) (k2 a)"
    by (auto simp: Let_def split: if_splits)
  then show ?thesis by (rule compare_antisym_signs(2) [OF assms(2)])
qed

text \<open>
  Claim C2. With a single sort key, and a window whose limit, when set, comes with a
  non-negative offset, the tuples inserted into the output table are non-decreasing
  under the key's comparison for an ascending key and non-increasing for a descending
  key: no tuple is followed, at any distance, by one that compares strictly before it.
  The standard algorithm is assumed to meet its contract on the input, and the value
  comparison to be sign-symmetric.
\<close>

theorem single_key_output_ordered:
  assumes run: "p_execute E params ex m = (r, ex', m')"
    and node: "m_abstractNode ex = OrderBy node"
    and inp: "getInputTable node = Some input_table"
    and keys: "getSortExpressions node = [k]"
    and dirs: "getSortDirections node = [dir]"
    and win: "0 \<le> fst (resolve_window (limit_node ex) params) \<longrightarrow>
              0 \<le> snd (resolve_window (limit_node ex) params)"
    and anti: "compare_antisym (nvalue_compare E)"
    and lib: "std_contract E (TupleComparer_op (nvalue_compare E) [k] [dir]) (tuples input_table)"
  shows "\<exists>ins. output_tuples ex' = output_tuples ex @ ins \<and>
           (dir = SORT_DIRECTION_TYPE_ASC \<longrightarrow>
              sorted_wrt (\<lambda>a b. nvalue_compare E (k a) (k b) \<le> 0) ins) \<and>
           (dir = SORT_DIRECTION_TYPE_DESC \<longrightarrow>
              sorted_wrt (\<lambda>a b. nvalue_compare E (k a) (k b) \<ge> 0) ins)"
proof -
  from lib keys dirs have lib': "std_contract E (TupleComparer_op (nvalue_compare E)
      (getSortExpressions node) (getSortDirections node)) (tuples input_table)" by simp
  from p_execute_inserted [OF run node inp lib'] win keys dirs obtain ins where
    out: "output_tuples ex' = output_tuples ex @ ins"
    and srt: "sorted_wrt (\<lambda>a b. TupleComparer_op (nvalue_compare E) [k] [dir] b a = Inr False) ins"
    by (auto simp: sorted_by_def)
  have "dir = SORT_DIRECTION_TYPE_ASC \<longrightarrow>
      sorted_wrt (\<lambda>a b. nvalue_compare E (k a) (k b) \<le> 0) ins"
    using single_key_verdict [OF _ anti, of k dir]
    by (intro impI sorted_wrt_mono_rel [OF _ srt]) blast
  moreover have "dir = SORT_DIRECTION_TYPE_DESC \<longrightarrow>
      sorted_wrt (\<lambda>a b. nvalue_compare E (k a) (k b) \<ge> 0) ins"
    using single_key_verdict [OF _ anti, of k dir]
    by (intro impI sorted_wrt_mono_rel [OF _ srt]) blast
  ultimately show ?thesis using out by blast
qed

theorem single_key_output_ordered_witness:
  "output_tuples (fst (snd (p_execute reference_collaborators ()
      (example_executor [(5, 0), (1, 1), (3, 0), (1, 2), (4, 0)] [fst] [SORT_DIRECTION_TYPE_DESC]
         (Some (3, 1))) 10))) = [(4, 0), (3, 0), (1, 2)] \<and>
   sorted_wrt (\<lambda>a b. int_compare (fst a) (fst b) \<ge> 0) [(4, 0), (3, 0), (1 :: int, 2 :: int)]"
proof -
  let ?ts = "[(5, 0), (1, 1), (3, 0), (1, 2), (4 :: int, 0 :: int)]"
  let ?ex = "example_executor ?ts [fst] [SORT_DIRECTION_TYPE_DESC] (Some (3, 1))"
  let ?run = "p_execute reference_collaborators () ?ex (10 :: nat)"
  have run: "?run = (fst ?run, fst (snd ?run), snd (snd ?run))" by simp
  have win: "0 \<le> fst (resolve_window (limit_node ?ex) ()) \<longrightarrow>
             0 \<le> snd (resolve_window (limit_node ?ex) ())"
    by (simp add: example_executor_simps)
  have lib: "std_contract reference_collaborators
     (TupleComparer_op (nvalue_compare reference_collaborators) [fst] [SORT_DIRECTION_TYPE_DESC])
     (tuples \<lparr>schema = (), tuples = ?ts\<rparr>)"
    by code_simp
  have anti: "compare_antisym (nvalue_compare reference_collaborators)"
    by (simp add: reference_collaborators_simps int_compare_antisym)
  have out: "output_tuples (fst (snd ?run)) = [(4, 0), (3, 0), (1, 2)]" by code_simp
  from single_key_output_ordered [OF run example_executor_simps(1) example_executor_simps(2)
      example_executor_simps(4) example_executor_simps(5) win anti lib]
  obtain ins where "output_tuples (fst (snd ?run)) = output_tuples ?ex @ ins"
    "sorted_wrt (\<lambda>a b. nvalue_compare reference_collaborators (fst a) (fst b) \<ge> 0) ins"
    by auto
  with out show ?thesis by (simp add: example_executor_simps reference_collaborators_simps)
qed


lemma op_ties_both:
  assumes "length keys = length dirs" and "\<forall>d\<in>set dirs. valid_direction d"
    and "compare_antisym cmp" and "\<forall>k\<in>set keys. cmp (k ta) (k tb) = 0"
  shows "ties (TupleComparer_op cmp keys dirs) ta tb"
proof -
  from assms(3,4) have "\<forall>k\<in>set keys. cmp (k tb) (k ta) = 0"
    by (blast intro: compare_antisym_signs(3))
  with assms show ?thesis by (simp add: ties_def op_ties)
qed

text \<open>
  Claim C3. With directions that are all valid, the comparator returns the lexicographic
  verdict of the specification: the verdict of the first entry whose direction-adjusted
  comparison is not zero, and "does not strictly precede" when there is none. When all
  raw comparisons are zero it answers so for both argument orders. Consequently, under
  the two-key specification (\<open>k1\<close> ascending, \<open>k2\<close> descending), of two inserted tuples
  with equal \<open>k1\<close> the later one never has the greater \<open>k2\<close> (for a sign-symmetric value
  comparison, a standard algorithm that meets its contract on the input, and a window
  whose limit, when set, comes with a non-negative offset).
\<close>

theorem comparer_lexicographic:
  assumes "length keys = length dirs" and "\<forall>d\<in>set dirs. valid_direction d"
  shows "TupleComparer_op cmp keys dirs ta tb = Inr (lex_precedes cmp (zip keys dirs) ta tb) \<and>
         (compare_antisym cmp \<and> (\<forall>k\<in>set keys. cmp (k ta) (k tb) = 0) \<longrightarrow>
            ties (TupleComparer_op cmp keys dirs) ta tb) \<and>
         (p_execute E params ex m = (r, ex', m') \<and>
          m_abstractNode ex = OrderBy node \<and>
          getInputTable node = Some input_table \<and>
          getSortExpressions node = [k1, k2] \<and>
          getSortDirections node = [SORT_DIRECTION_TYPE_ASC, SORT_DIRECTION_TYPE_DESC] \<and>
          (0 \<le> fst (resolve_window (limit_node ex) params) \<longrightarrow>
             0 \<le> snd (resolve_window (limit_node ex) params)) \<and>
          compare_antisym (nvalue_compare E) \<and>
          std_contract E (TupleComparer_op (nvalue_compare E) [k1, k2]
             [SORT_DIRECTION_TYPE_ASC, SORT_DIRECTION_TYPE_DESC]) (tuples input_table) \<longrightarrow>
          (\<exists>ins. output_tuples ex' = output_tuples ex @ ins \<and>
             sorted_wrt (\<lambda>a b. nvalue_compare E (k1 a) (k1 b) = 0 \<longrightarrow>
                           0 \<le> nvalue_compare E (k2 a) (k2 b)) ins))"
proof (intro conjI impI)
  show "TupleComparer_op cmp keys dirs ta tb = Inr (lex_precedes cmp (zip keys dirs) ta tb)"
    using assms by (rule op_lex)
next
  assume "compare_antisym cmp \<and> (\<forall>k\<in>set keys. cmp (k ta) (k tb) = 0)"
  with assms show "ties (TupleComparer_op cmp keys dirs) ta tb"
    by (blast intro: op_ties_both)
next
  let ?c = "TupleComparer_op (nvalue_compare E) [k1, k2]
             [SORT_DIRECTION_TYPE_ASC, SORT_DIRECTION_TYPE_DESC]"
  assume h: "p_execute E params ex m = (r, ex', m') \<and>
          m_abstractNode ex = OrderBy node \<and>
          getInputTable node = Some input_table \<and>
          getSortExpressions node = [k1, k2] \<and>
          getSortDirections node = [SORT_DIRECTION_TYPE_ASC, SORT_DIRECTION_TYPE_DESC] \<and>
          (0 \<le> fst (resolve_window (limit_node ex) params) \<longrightarrow>
             0 \<le> snd (resolve_window (limit_node ex) params)) \<and>
          compare_antisym (nvalue_compare E) \<and>
          std_contract E ?c (tuples input_table)"
  then have run: "p_execute E params ex m = (r, ex', m')"
    and node: "m_abstractNode ex = OrderBy node"
    and inp: "getInputTable node = Some input_table"
    and anti: "compare_antisym (nvalue_compare E)"
    and lib: "std_contract E (TupleComparer_op (nvalue_compare E)
      (getSortExpressions node) (getSortDirections node)) (tuples input_table)"
    by simp_all
  from p_execute_inserted [OF run node inp lib] h obtain ins where
    out: "output_tuples ex' = output_tuples ex @ ins"
    and srt: "sorted_wrt (\<lambda>a b. ?c b a = Inr False) ins"
    by (auto simp: sorted_by_def)
  have "sorted_wrt (\<lambda>a b. nvalue_compare E (k1 a) (k1 b) = 0 \<longrightarrow>
                           0 \<le> nvalue_compare E (k2 a) (k2 b)) ins"
    using two_key_verdict [OF _ anti, of k1 k2]
    by (intro sorted_wrt_mono_rel [OF _ srt]) blast
  with out show "\<exists>ins. output_tuples ex' = output_tuples ex @ ins \<and>
             sorted_wrt (\<lambda>a b. nvalue_compare E (k1 a) (k1 b) = 0 \<longrightarrow>
                           0 \<le> nvalue_compare E (k2 a) (k2 b)) ins"
    by blast
qed

theorem comparer_lexicographic_witness:
  "TupleComparer_op int_compare [fst, snd] [SORT_DIRECTION_TYPE_ASC, SORT_DIRECTION_TYPE_DESC]
     (1, 3) (1, 2) = Inr True \<and>
   ties (TupleComparer_op int_compare [fst, snd] [SORT_DIRECTION_TYPE_ASC, SORT_DIRECTION_TYPE_DESC])
     (1, 2) (1, 2) \<and>
   output_tuples (fst (snd (p_execute reference_collaborators ()
      (example_executor [(5, 0), (1, 1), (3, 0), (1, 2), (4, 0)] [fst, snd]
         [SORT_DIRECTION_TYPE_ASC, SORT_DIRECTION_TYPE_DESC] (Some (3, 0))) 10))) =
     [(1, 2), (1, 1), (3, 0)] \<and>
   sorted_wrt (\<lambda>a b. int_compare (fst a) (fst b) = 0 \<longrightarrow> 0 \<le> int_compare (snd a) (snd b))
     [(1, 2), (1, 1), (3 :: int, 0 :: int)]"
proof -
  let ?keys = "[fst, snd] :: (int \<times> int \<Rightarrow> int) list"
  let ?dirs = "[SORT_DIRECTION_TYPE_ASC, SORT_DIRECTION_TYPE_DESC]"
  let ?ts = "[(5, 0), (1, 1), (3, 0), (1, 2), (4 :: int, 0 :: int)]"
  let ?ex = "example_executor ?ts ?keys ?dirs (Some (3, 0))"
  let ?run = "p_execute reference_collaborators () ?ex (10 :: nat)"
  have len: "length ?keys = length ?dirs" and valid: "\<forall>d\<in>set ?dirs. valid_direction d"
    by (simp_all add: valid_direction_def)
  have run: "?run = (fst ?run, fst (snd ?run), snd (snd ?run))" by simp
  have win: "0 \<le> fst (resolve_window (limit_node ?ex) ()) \<longrightarrow>
             0 \<le> snd (resolve_window (limit_node ?ex) ())"
    by (simp add: example_executor_simps)
  have lib: "std_contract reference_collaborators
     (TupleComparer_op (nvalue_compare reference_collaborators) [fst, snd] ?dirs)
     (tuples \<lparr>schema = (), tuples = ?ts\<rparr>)"
    by code_simp
  have anti: "compare_antisym (nvalue_compare reference_collaborators)"
    by (simp add: reference_collaborators_simps int_compare_antisym)
  have out: "output_tuples (fst (snd ?run)) = [(1, 2), (1, 1), (3, 0)]" by code_simp
  have eq: "\<forall>k\<in>set ?keys. int_compare (k (1, 2)) (k (1, 2)) = 0"
    by (simp add: int_compare_def)
  have lex: "lex_precedes int_compare (zip ?keys ?dirs) (1, 3) (1, 2) = True"
    by (simp add: lex_precedes_def adjusted_cmp_def int_compare_def)
  note a = comparer_lexicographic [OF len valid, of int_compare "(1, 3)" "(1, 2)"]
  note b = comparer_lexicographic [OF len valid, of int_compare "(1, 2)" "(1, 2)"
      reference_collaborators "()" ?ex 10 "fst ?run" "fst (snd ?run)" "snd (snd ?run)"
      "example_node ?ts ?keys ?dirs" "\<lparr>schema = (), tuples = ?ts\<rparr>" fst snd]
  from a have "TupleComparer_op int_compare ?keys ?dirs (1, 3) (1, 2) =
      Inr (lex_precedes int_compare (zip ?keys ?dirs) (1, 3) (1, 2))"
    by (rule conjunct1)
  then have 1: "TupleComparer_op int_compare ?keys ?dirs (1, 3) (1, 2) = Inr True"
    unfolding lex .
  from b int_compare_antisym eq have 2: "ties (TupleComparer_op int_compare ?keys ?dirs) (1, 2) (1, 2)"
    by blast
  from b run example_executor_simps(1) [of ?ts ?keys ?dirs "Some (3, 0)"]
    example_executor_simps(2) [of ?ts ?keys ?dirs] example_executor_simps(4) [of ?ts ?keys ?dirs]
    example_executor_simps(5) [of ?ts ?keys ?dirs] win anti lib
  obtain ins where "output_tuples (fst (snd ?run)) = output_tuples ?ex @ ins"
    "sorted_wrt (\<lambda>a b. nvalue_compare reference_collaborators (fst a) (fst b) = 0 \<longrightarrow>
        0 \<le> nvalue_compare reference_collaborators (snd a) (snd b)) ins"
    by blast
  with out have 3: "sorted_wrt (\<lambda>a b. int_compare (fst a) (fst b) = 0 \<longrightarrow>
        0 \<le> int_compare (snd a) (snd b)) [(1, 2), (1, 1), (3 :: int, 0 :: int)]"
    by (simp add: example_executor_simps reference_collaborators_simps)
  from 1 2 out 3 show ?thesis by (intro conjI)
qed


subsection \<open>Cancellation\<close>

lemma materialize_cancelled:
  "countdown_times E k m = Inr mk \<Longrightarrow> countdownProgress E mk = Inl e \<Longrightarrow> k < length its \<Longrightarrow>
   \<forall>t\<in>set (take k its). isActive E t \<Longrightarrow> materialize E its xs m = Inl e"
proof (induction k arbitrary: its xs m)
  case 0
  then obtain t rest where "its = t # rest" by (cases its) auto
  with 0 show ?case by simp
next
  case (Suc k)
  from Suc.prems(3) obtain t rest where its: "its = t # rest" and k: "k < length rest"
    by (cases its) auto
  from Suc.prems(1) obtain m1 where m1: "countdownProgress E m = Inr m1"
    and steps: "countdown_times E k m1 = Inr mk"
    by (auto split: sum.splits)
  from Suc.prems(4) its have act: "isActive E t" "\<forall>t\<in>set (take k rest). isActive E t" by auto
  from Suc.IH [OF steps Suc.prems(2) k act(2)] its m1 act(1) show ?case by simp
qed

text \<open>
  Claim C5. On an executor whose node, input and output tables pass the assertions, if
  the progress monitor raises a signal at the call of \<^verbatim>\<open>countdownProgress\<close> that follows
  \<open>k < N\<close> processed (active) input tuples, then \<open>p_execute\<close> fails with that signal and
  the output table holds what it held before: no tuple has been inserted.
\<close>

theorem cancellation_during_materialization:
  assumes node: "m_abstractNode ex = OrderBy node"
    and out: "getOutputTable node = Some output_table"
    and inp: "getInputTable node = Some input_table"
    and k: "k < length (tuples input_table)"
    and act: "\<forall>t\<in>set (take k (tuples input_table)). isActive E t"
    and steps: "countdown_times E k m = Inr mk"
    and raise: "countdownProgress E mk = Inl e"
  shows "\<exists>ex' m'. p_execute E params ex m = (Inl e, ex', m') \<and>
           output_tuples ex' = output_tuples ex"
proof -
  from materialize_cancelled [OF steps raise k act]
  have "materialize E (tuples input_table) [] m = Inl e" .
  with node out inp have "p_execute E params ex m = (Inl e, ex, m)"
    by (simp add: p_execute_def split: prod.splits)
  then show ?thesis by blast
qed

theorem cancellation_during_materialization_witness:
  "fst (p_execute reference_collaborators ()
      (example_executor [(5, 0), (1, 1), (3, 0), (1, 2), (4, 0)] [fst] [SORT_DIRECTION_TYPE_ASC] None)
      2) = Inl Cancellation \<and>
   output_tuples (fst (snd (p_execute reference_collaborators ()
      (example_executor [(5, 0), (1, 1), (3, 0), (1, 2), (4, 0)] [fst] [SORT_DIRECTION_TYPE_ASC] None)
      2))) = []"
proof -
  let ?ts = "[(5, 0), (1, 1), (3, 0), (1, 2), (4 :: int, 0 :: int)]"
  let ?ex = "example_executor ?ts [fst] [SORT_DIRECTION_TYPE_ASC] None"
  have k: "2 < length (tuples \<lparr>schema = (), tuples = ?ts\<rparr>)" by simp
  have act: "\<forall>t\<in>set (take 2 (tuples \<lparr>schema = (), tuples = ?ts\<rparr>)). isActive reference_collaborators t"
    by (simp add: reference_collaborators_simps)
  have steps: "countdown_times reference_collaborators 2 2 = Inr 0"
    by (simp add: numeral_2_eq_2 reference_collaborators_simps budget_monitor_def)
  have raise: "countdownProgress reference_collaborators 0 = Inl Cancellation"
    by (simp add: reference_collaborators_simps budget_monitor_def)
  from cancellation_during_materialization [of ?ex "example_node ?ts [fst] [SORT_DIRECTION_TYPE_ASC]"
      "\<lparr>schema = (), tuples = []\<rparr>" "\<lparr>schema = (), tuples = ?ts\<rparr>" 2 reference_collaborators 2 0
      Cancellation "()", OF example_executor_simps(1) example_executor_simps(3)
      example_executor_simps(2) k act steps raise]
  show ?thesis by (auto simp: example_executor_simps)
qed

subsection \<open>Initialisation\<close>

text \<open>
  Claim C7, as stated, fails: built with \<^verbatim>\<open>NDEBUG\<close>, \<open>p_init\<close> on a node with two bound
  input tables raises nothing; it gives the node an output table and returns true.
\<close>

theorem p_init_two_inputs_counterexample:
  "length (getInputTables
     ((example_node [] [] [])
        \<lparr>getInputTables := [Some \<lparr>schema = (), tuples = []\<rparr>, Some \<lparr>schema = (), tuples = []\<rparr>]\<rparr>)) = 2 \<and>
   p_init True
     (OrderBy ((example_node [] [] [])
        \<lparr>getInputTables := [Some \<lparr>schema = (), tuples = []\<rparr>, Some \<lparr>schema = (), tuples = []\<rparr>]\<rparr>))
     (example_executor [] [] [] None) =
   Returned (True,
     (example_executor [] [] [] None)
       \<lparr>m_abstractNode := OrderBy ((example_node [] [] [])
          \<lparr>getInputTables := [Some \<lparr>schema = (), tuples = []\<rparr>, Some \<lparr>schema = (), tuples = []\<rparr>],
           getOutputTable := Some \<lparr>schema = (), tuples = []\<rparr>\<rparr>),
        limit_node := None\<rparr>)"
  by (simp add: p_init_def setTempOutputLikeInputTable_def getInputTable_def example_node_def)

text \<open>
  Claim C7, amended. \<open>p_init\<close> raises no configuration error: that exactly one input
  table is bound is an assertion. With asserts compiled in, any other number of input
  tables aborts the process; with \<^verbatim>\<open>NDEBUG\<close> the number is not checked, and \<open>p_init\<close>
  returns true as soon as a first input table is bound. In either build, when exactly
  one input table is bound and the first child of the node is not null, \<open>p_init\<close> gives
  the node an empty output table with the input's schema, picks up the inlined limit
  node, and returns true.
\<close>

theorem p_init_asserts_one_input:
  "(length (getInputTables node) \<noteq> 1 \<longrightarrow> p_init False (OrderBy node) ex = Aborted) \<and>
   (getInputTables node = Some input_table # others \<longrightarrow>
      p_init True (OrderBy node) ex =
        Returned (True,
             ex\<lparr>m_abstractNode :=
                   OrderBy (node\<lparr>getOutputTable :=
                                   Some \<lparr>schema = schema input_table, tuples = []\<rparr>\<rparr>),
                 limit_node := getInlinePlanNode_LIMIT node\<rparr>)) \<and>
   (getInputTables node = [Some input_table] \<and> getChildren node = Some child # children \<longrightarrow>
      p_init NDEBUG (OrderBy node) ex =
        Returned (True,
             ex\<lparr>m_abstractNode :=
                   OrderBy (node\<lparr>getOutputTable :=
                                   Some \<lparr>schema = schema input_table, tuples = []\<rparr>\<rparr>),
                 limit_node := getInlinePlanNode_LIMIT node\<rparr>))"
  by (simp add: p_init_def p_init_asserts_def setTempOutputLikeInputTable_def getInputTable_def)

theorem p_init_asserts_one_input_witness:
  "p_init False
     (OrderBy ((example_node [(1, 2)] [fst] [SORT_DIRECTION_TYPE_ASC]) \<lparr>getInputTables := []\<rparr>))
     (example_executor [] [] [] None) = Aborted \<and>
   p_init False (OrderBy (example_node [(1, 2)] [fst] [SORT_DIRECTION_TYPE_ASC]))
     (example_executor [] [] [] None) =
   Returned (True,
     (example_executor [] [] [] None)
       \<lparr>m_abstractNode := OrderBy ((example_node [(1, 2)] [fst] [SORT_DIRECTION_TYPE_ASC])
           \<lparr>getOutputTable := Some \<lparr>schema = schema \<lparr>schema = (), tuples = [(1 :: int, 2 :: int)]\<rparr>, tuples = []\<rparr>\<rparr>),
        limit_node := getInlinePlanNode_LIMIT (example_node [(1, 2)] [fst] [SORT_DIRECTION_TYPE_ASC])\<rparr>)"
proof -
  let ?node = "example_node [(1, 2)] [fst] [SORT_DIRECTION_TYPE_ASC]"
  let ?ex = "example_executor [] [] [] None"
  have 0: "length (getInputTables (?node\<lparr>getInputTables := []\<rparr>)) \<noteq> 1" by simp
  have 1: "getInputTables ?node = [Some \<lparr>schema = (), tuples = [(1, 2)]\<rparr>] \<and>
           getChildren ?node = Some () # []"
    by (simp add: example_node_def)
  have a: "p_init False (OrderBy (?node\<lparr>getInputTables := []\<rparr>)) ?ex = Aborted"
    by (rule p_init_asserts_one_input [where node = "?node\<lparr>getInputTables := []\<rparr>"
          and ex = ?ex, THEN conjunct1, THEN mp, OF 0])
  have b: "p_init False (OrderBy ?node) ?ex =
   Returned (True, ?ex\<lparr>m_abstractNode := OrderBy (?node
           \<lparr>getOutputTable := Some \<lparr>schema = schema \<lparr>schema = (), tuples = [(1 :: int, 2 :: int)]\<rparr>, tuples = []\<rparr>\<rparr>),
        limit_node := getInlinePlanNode_LIMIT ?node\<rparr>)"
    by (rule p_init_asserts_one_input [where node = ?node and ex = ?ex
          and input_table = "\<lparr>schema = (), tuples = [(1, 2)]\<rparr>" and child = "()"
          and children = "[]" and NDEBUG = False,
          THEN conjunct2, THEN conjunct2, THEN mp, OF 1])
  from a b show ?thesis by (intro conjI)
qed

subsection \<open>The number of emitted tuples\<close>

text \<open>
  The count of a successful execution: the count of the specification for every window
  but limit 0, where one tuple is emitted as soon as one lies behind the offset.
\<close>

lemma emitted_slice_window:
  "limit \<noteq> 0 \<Longrightarrow> emitted_slice limit offset ys = window limit offset ys"
  by (simp add: emitted_slice_def window_def max_def)

lemma length_window:
  "int (length (window limit offset ys)) = spec_count limit offset (length ys)"
  by (auto simp: window_def spec_count_def)

lemma p_execute_count:
  assumes run: "p_execute E params ex m = (Inr b, ex', m')"
    and node: "m_abstractNode ex = OrderBy node"
    and inp: "getInputTable node = Some input_table"
    and win: "resolve_window (limit_node ex) params = (limit, offset)"
    and lib: "std_contract E (TupleComparer_op (nvalue_compare E) (getSortExpressions node)
                (getSortDirections node)) (tuples input_table)"
  shows "\<exists>ins. output_tuples ex' = output_tuples ex @ ins \<and>
           int (length ins) =
             (if limit = 0 then min 1 (max (int (length (tuples input_table)) - max offset 0) 0)
              else spec_count limit offset (length (tuples input_table)))"
proof -
  let ?c = "TupleComparer_op (nvalue_compare E) (getSortExpressions node) (getSortDirections node)"
  have "\<not> (output_tuples ex' = output_tuples ex \<and> (\<forall>b'. (Inr b :: error + bool) \<noteq> Inr b'))"
    by blast
  with p_execute_emits [OF run node inp win] obtain ys where
    ord: "order_stage E ?c limit offset (tuples input_table) = Inr ys"
    and out: "output_tuples ex' = output_tuples ex @ emitted_slice limit offset ys"
    by blast
  from order_stage_mset [OF lib ord] have len: "length ys = length (tuples input_table)"
    by (rule mset_eq_length)
  have "int (length (emitted_slice limit offset ys)) =
      (if limit = 0 then min 1 (max (int (length ys) - max offset 0) 0)
       else spec_count limit offset (length ys))"
  proof (cases "limit = 0")
    case True
    then show ?thesis by (auto simp: emitted_slice_def)
  next
    case False
    then show ?thesis by (simp add: emitted_slice_window length_window)
  qed
  with out len show ?thesis by auto
qed

text \<open>
  Claim C1 at the input where the code departs from it: one input tuple, limit 0 and
  offset 0. The execution succeeds and inserts the tuple, where the count of the
  specification is 0: the loop tests the limit only after the insertion.
\<close>

theorem limit_zero_emits_one_tuple:
  "fst (p_execute reference_collaborators ()
      (example_executor [(7, 0)] [fst] [SORT_DIRECTION_TYPE_ASC] (Some (0, 0))) 10) = Inr True \<and>
   output_tuples (fst (snd (p_execute reference_collaborators ()
      (example_executor [(7, 0)] [fst] [SORT_DIRECTION_TYPE_ASC] (Some (0, 0))) 10))) = [(7, 0)] \<and>
   spec_count 0 0 (length [(7 :: int, 0 :: int)]) = 0"
  by code_simp


subsection \<open>Partial sort against full sort\<close>

text \<open>
  In a sequence whose first \<open>n\<close> positions are sorted and hold nothing that an element
  behind them strictly precedes, the element at position \<open>i < n\<close> has at most \<open>i\<close>
  elements strictly before it and at least \<open>i + 1\<close> elements not strictly after it. Under
  a strict weak ordering two elements with that rank tie.
\<close>

lemma length_filter_mono:
  "\<forall>x\<in>set xs. P x \<longrightarrow> Q x \<Longrightarrow> length (filter P xs) \<le> length (filter Q xs)"
  by (induction xs) auto

lemma length_filter_mset:
  assumes "mset ys = mset zs"
  shows "length (filter P ys) = length (filter P zs)"
proof -
  have "mset (filter P ys) = mset (filter P zs)"
    using assms by (simp only: mset_filter)
  then show ?thesis by (rule mset_eq_length)
qed

lemma strict_weak_irrefl:
  "strict_weak_on c S \<Longrightarrow> a \<in> S \<Longrightarrow> c a a = Inr False"
  unfolding strict_weak_on_def by (metis Inr_inject)

lemma sorted_prefix_below:
  assumes swo: "strict_weak_on c (set ys)"
    and srt: "sorted_by c (take n ys)"
    and cross: "\<forall>a\<in>set (take n ys). \<forall>b\<in>set (drop n ys). c b a = Inr False"
    and i: "i < n" "i < length ys"
  shows "length (filter (\<lambda>x. c x (ys ! i) = Inr True) ys) \<le> i"
proof -
  have "c x (ys ! i) \<noteq> Inr True" if "x \<in> set (drop i ys)" for x
  proof -
    from that obtain j where j: "i \<le> j" "j < length ys" "x = ys ! j"
      by (auto simp: in_set_conv_nth) (metis add.commute le_add1 less_diff_conv)
    consider "j = i" | "i < j" "j < n" | "n \<le> j" using j(1) by linarith
    then have "c x (ys ! i) = Inr False"
    proof cases
      case 1
      with j i swo show ?thesis by (simp add: strict_weak_irrefl)
    next
      case 2
      with j i have "i < j" "j < length (take n ys)" by simp_all
      from sorted_wrt_nth_less [OF srt [unfolded sorted_by_def] this] 2 i j
      show ?thesis by simp
    next
      case 3
      with j have "x \<in> set (drop n ys)"
        by (auto simp: in_set_conv_nth intro!: exI [of _ "j - n"])
      moreover from i have "ys ! i \<in> set (take n ys)"
        by (auto simp: in_set_conv_nth intro!: exI [of _ i])
      ultimately show ?thesis using cross by blast
    qed
    then show ?thesis by simp
  qed
  then have "filter (\<lambda>x. c x (ys ! i) = Inr True) (drop i ys) = []"
    by (simp add: filter_empty_conv)
  then have "filter (\<lambda>x. c x (ys ! i) = Inr True) ys =
      filter (\<lambda>x. c x (ys ! i) = Inr True) (take i ys)"
    by (metis append_Nil2 append_take_drop_id filter_append)
  moreover have "length (filter (\<lambda>x. c x (ys ! i) = Inr True) (take i ys)) \<le> length (take i ys)"
    by (rule length_filter_le)
  ultimately show ?thesis by simp
qed

lemma sorted_prefix_above:
  assumes swo: "strict_weak_on c (set ys)"
    and srt: "sorted_by c (take n ys)"
    and i: "i < n" "i < length ys"
  shows "Suc i \<le> length (filter (\<lambda>x. c (ys ! i) x = Inr False) ys)"
proof -
  have "c (ys ! i) x = Inr False" if "x \<in> set (take (Suc i) ys)" for x
  proof -
    from that obtain j where "j < length (take (Suc i) ys)" "x = take (Suc i) ys ! j"
      unfolding in_set_conv_nth by blast
    then have j: "j \<le> i" "x = ys ! j" by simp_all
    show ?thesis
    proof (cases "j = i")
      case True
      with j i swo show ?thesis by (simp add: strict_weak_irrefl)
    next
      case False
      with j i have "j < i" "i < length (take n ys)" by simp_all
      from sorted_wrt_nth_less [OF srt [unfolded sorted_by_def] this] i j
      show ?thesis by simp
    qed
  qed
  then have "filter (\<lambda>x. c (ys ! i) x = Inr False) (take (Suc i) ys) = take (Suc i) ys"
    by (simp add: filter_id_conv)
  then have "length (filter (\<lambda>x. c (ys ! i) x = Inr False) (take (Suc i) ys)) = Suc i"
    using i by simp
  moreover have "length (filter (\<lambda>x. c (ys ! i) x = Inr False) ys) =
      length (filter (\<lambda>x. c (ys ! i) x = Inr False) (take (Suc i) ys)) +
      length (filter (\<lambda>x. c (ys ! i) x = Inr False) (drop (Suc i) ys))"
    by (metis append_take_drop_id filter_append length_append)
  ultimately show ?thesis by simp
qed

lemma rank_ties:
  assumes swo: "strict_weak_on c S" and a: "a \<in> S" and b: "b \<in> S" and xs: "set xs \<subseteq> S"
    and la: "length (filter (\<lambda>x. c x a = Inr True) xs) \<le> i"
    and ua: "Suc i \<le> length (filter (\<lambda>x. c a x = Inr False) xs)"
    and lb: "length (filter (\<lambda>x. c x b = Inr True) xs) \<le> i"
    and ub: "Suc i \<le> length (filter (\<lambda>x. c b x = Inr False) xs)"
  shows "ties c a b"
proof -
  have no: "c p q \<noteq> Inr True"
    if p: "p \<in> S" and q: "q \<in> S"
      and u: "Suc i \<le> length (filter (\<lambda>x. c p x = Inr False) xs)"
      and l: "length (filter (\<lambda>x. c x q = Inr True) xs) \<le> i" for p q
  proof
    assume pq: "c p q = Inr True"
    have "\<forall>x\<in>set xs. c p x = Inr False \<longrightarrow> c x q = Inr True"
    proof (intro ballI impI)
      fix x assume x: "x \<in> set xs" and f: "c p x = Inr False"
      from swo p q x xs pq have "c p x = Inr True \<or> c x q = Inr True"
        unfolding strict_weak_on_def by blast
      with f show "c x q = Inr True" by simp
    qed
    from length_filter_mono [OF this] u l show False by linarith
  qed
  from no [OF a b ua lb] no [OF b a ub la] swo a b show ?thesis
    unfolding ties_def strict_weak_on_def by blast
qed

lemma sorted_prefixes_tie:
  assumes swo: "strict_weak_on c (set xs)"
    and ys: "mset ys = mset xs" and zs: "mset zs = mset xs"
    and sz: "sorted_by c zs"
    and sy: "sorted_by c (take n ys)"
    and cross: "\<forall>a\<in>set (take n ys). \<forall>b\<in>set (drop n ys). c b a = Inr False"
  shows "list_all2 (ties c) (take n ys) (take n zs)"
proof -
  from ys zs have len: "length ys = length xs" "length zs = length xs"
    by (auto dest: mset_eq_length)
  from ys zs have sets: "set ys = set xs" "set zs = set xs"
    by (auto dest: mset_eq_setD)
  have "ties c (take n ys ! i) (take n zs ! i)" if "i < length (take n ys)" for i
  proof -
    from that len have i: "i < n" "i < length ys" "i < length zs" by simp_all
    let ?a = "ys ! i" and ?b = "zs ! i"
    from i sets have mem: "?a \<in> set xs" "?b \<in> set xs" by (metis nth_mem)+
    have la: "length (filter (\<lambda>x. c x ?a = Inr True) xs) \<le> i"
      using sorted_prefix_below [OF _ sy cross i(1,2)] swo sets
        length_filter_mset [OF ys] by metis
    have ua: "Suc i \<le> length (filter (\<lambda>x. c ?a x = Inr False) xs)"
      using sorted_prefix_above [OF _ sy i(1,2)] swo sets length_filter_mset [OF ys] by metis
    have sz': "sorted_by c (take (length zs) zs)" using sz by simp
    have cz: "\<forall>a\<in>set (take (length zs) zs). \<forall>b\<in>set (drop (length zs) zs). c b a = Inr False"
      by simp
    have lb: "length (filter (\<lambda>x. c x ?b = Inr True) xs) \<le> i"
      using sorted_prefix_below [OF _ sz' cz i(3) i(3)] swo sets
        length_filter_mset [OF zs] by metis
    have ub: "Suc i \<le> length (filter (\<lambda>x. c ?b x = Inr False) xs)"
      using sorted_prefix_above [OF _ sz' i(3) i(3)] swo sets length_filter_mset [OF zs] by metis
    from rank_ties [OF swo mem subset_refl la ua lb ub] i show ?thesis by simp
  qed
  moreover have "length (take n ys) = length (take n zs)" using len by simp
  ultimately show ?thesis by (intro list_all2_all_nthI)
qed



lemma ties_unique:
  assumes "list_all2 (ties c) as bs" and "set as \<subseteq> S" and "set bs \<subseteq> S"
    and "\<forall>a\<in>S. \<forall>b\<in>S. ties c a b \<longrightarrow> a = b"
  shows "as = bs"
  using assms
proof (induction as bs rule: list_all2_induct)
  case Nil
  then show ?case by simp
next
  case (Cons a as b bs)
  from Cons.prems Cons.hyps(1) have "a = b" by simp
  moreover from Cons.prems Cons.IH have "as = bs" by simp
  ultimately show ?case by simp
qed

text \<open>
  With limit 0 the loop still inserts one tuple, the one at position \<open>offset\<close>, which lies
  behind the prefix that \<^verbatim>\<open>partial_sort\<close> has ordered: here it is the tuple with key 3,
  where the fully sorted vector has key 2 at that position.
\<close>

lemma limit_zero_reads_behind_sorted_prefix:
  "output_tuples (fst (snd (p_execute libstdcxx_collaborators ()
      (example_executor [(1, 0), (3, 0), (2, 0)] [fst] [SORT_DIRECTION_TYPE_ASC] (Some (0, 1))) 10)))
     = [(3, 0)] \<and>
   insertion_sort (TupleComparer_op int_compare [fst] [SORT_DIRECTION_TYPE_ASC])
     [(1, 0), (3, 0), (2, 0 :: int)] = Inr [(1, 0), (2, 0), (3, 0)]"
  by code_simp

text \<open>
  Claim C4, as stated, fails: the standard algorithms are not stable, and the heap of
  \<^verbatim>\<open>partial_sort\<close> orders tied tuples differently from the insertion of \<^verbatim>\<open>sort\<close>. On
  five rows with keys 5, 1, 3, 1, 4, limit 2 and offset 1 (so that \<open>L + O = 3 < 5\<close>), the
  partial-ordering path emits the first of the two rows with key 1, then the row with
  key 3; the full sort followed by the same window gives the second row with key 1,
  then the row with key 3. Both algorithms meet their contract on this input.
\<close>

theorem partial_sort_ties_counterexample:
  "fst (p_execute libstdcxx_collaborators ()
      (example_executor [(5, 0), (1, 1), (3, 0), (1, 2), (4, 0)] [fst] [SORT_DIRECTION_TYPE_ASC]
         (Some (2, 1))) 10)
     = Inr True \<and>
   output_tuples (fst (snd (p_execute libstdcxx_collaborators ()
      (example_executor [(5, 0), (1, 1), (3, 0), (1, 2), (4, 0)] [fst] [SORT_DIRECTION_TYPE_ASC]
         (Some (2, 1))) 10)))
     = [(1, 1), (3, 0)] \<and>
   full_sort_then_window libstdcxx_collaborators
     (TupleComparer_op int_compare [fst] [SORT_DIRECTION_TYPE_ASC]) 2 1
     [(5, 0), (1, 1), (3, 0), (1, 2), (4, 0)]
     = Inr [(1, 2), (3, 0)] \<and>
   std_contract libstdcxx_collaborators
     (TupleComparer_op int_compare [fst] [SORT_DIRECTION_TYPE_ASC])
     [(5, 0), (1, 1), (3, 0), (1, 2), (4, 0)]"
  by code_simp

text \<open>
  Claim C4, amended. For a window with limit \<open>L \<ge> 1\<close> and offset \<open>O \<ge> 0\<close> such that
  \<open>L + O < N\<close>, and a comparator that is a strict weak ordering on the input, what a
  successful execution inserts has the length of the fully sorted and windowed sequence
  and ties with it position by position; the two sequences are identical when no two
  distinct input tuples tie.
\<close>

theorem partial_sort_path_matches_full_sort:
  assumes run: "p_execute E params ex m = (Inr b, ex', m')"
    and node: "m_abstractNode ex = OrderBy node"
    and inp: "getInputTable node = Some input_table"
    and win: "resolve_window (limit_node ex) params = (limit, offset)"
    and lim: "1 \<le> limit" and off: "0 \<le> offset"
    and lt: "limit + offset < int (length (tuples input_table))"
    and lib: "std_contract E (TupleComparer_op (nvalue_compare E) (getSortExpressions node)
                (getSortDirections node)) (tuples input_table)"
    and swo: "strict_weak_on (TupleComparer_op (nvalue_compare E) (getSortExpressions node)
                (getSortDirections node)) (set (tuples input_table))"
    and full: "full_sort_then_window E (TupleComparer_op (nvalue_compare E)
                (getSortExpressions node) (getSortDirections node)) limit offset
                (tuples input_table) = Inr ws"
  shows "\<exists>ins. output_tuples ex' = output_tuples ex @ ins \<and>
           list_all2 (ties (TupleComparer_op (nvalue_compare E) (getSortExpressions node)
                (getSortDirections node))) ins ws \<and>
           ((\<forall>a\<in>set (tuples input_table). \<forall>b\<in>set (tuples input_table).
               ties (TupleComparer_op (nvalue_compare E) (getSortExpressions node)
                (getSortDirections node)) a b \<longrightarrow> a = b) \<longrightarrow> ins = ws)"
proof -
  let ?c = "TupleComparer_op (nvalue_compare E) (getSortExpressions node) (getSortDirections node)"
  let ?xs = "tuples input_table"
  let ?n = "nat (limit + offset)"
  have "\<not> (output_tuples ex' = output_tuples ex \<and> (\<forall>b'. (Inr b :: error + bool) \<noteq> Inr b'))"
    by blast
  with p_execute_emits [OF run node inp win] obtain ys where
    ord: "order_stage E ?c limit offset ?xs = Inr ys"
    and out: "output_tuples ex' = output_tuples ex @ emitted_slice limit offset ys"
    by blast
  from ord lim off lt have ps: "std_partial_sort E ?c ?n ?xs = Inr ys"
    by (simp add: order_stage_def)
  from lim off lt have "?n < Suc (length ?xs)" by linarith
  then have "?n \<in> set [0..<Suc (length ?xs)]" by (metis atLeastLessThan_iff le0 set_upt)
  with lib have "partial_sort_post ?c ?n ?xs (std_partial_sort E ?c ?n ?xs)"
    unfolding std_contract_def by blast
  with ps have ys: "mset ys = mset ?xs" and sy: "sorted_by ?c (take ?n ys)"
    and cross: "\<forall>a\<in>set (take ?n ys). \<forall>b\<in>set (drop ?n ys). ?c b a = Inr False"
    by (simp_all add: partial_sort_post_def)
  from full obtain zs where fs: "std_sort E ?c ?xs = Inr zs" and ws: "ws = window limit offset zs"
    by (cases "std_sort E ?c ?xs") (simp_all add: full_sort_then_window_def)
  from lib have "sort_post ?c ?xs (std_sort E ?c ?xs)"
    unfolding std_contract_def by blast
  with fs have zs: "mset zs = mset ?xs" and sz: "sorted_by ?c zs"
    by (simp_all add: sort_post_def)
  from sorted_prefixes_tie [OF swo ys zs sz sy cross]
  have pre: "list_all2 (ties ?c) (take ?n ys) (take ?n zs)" .
  from lim off have n: "?n = nat limit + nat offset" by (simp add: nat_add_distrib)
  from lim have sl: "emitted_slice limit offset ys = drop (nat offset) (take ?n ys)"
    by (simp add: emitted_slice_def take_drop n)
  from lim ws have wl: "ws = drop (nat offset) (take ?n zs)"
    by (simp add: window_def take_drop n)
  from pre have t: "list_all2 (ties ?c) (emitted_slice limit offset ys) ws"
    unfolding sl wl by (rule list_all2_dropI)
  have "set (emitted_slice limit offset ys) \<subseteq> set ?xs"
    unfolding sl using mset_eq_setD [OF ys] set_drop_subset [of "nat offset" "take ?n ys"]
      set_take_subset [of ?n ys] by blast
  moreover have "set ws \<subseteq> set ?xs"
    unfolding wl using mset_eq_setD [OF zs] set_drop_subset [of "nat offset" "take ?n zs"]
      set_take_subset [of ?n zs] by blast
  ultimately have "(\<forall>a\<in>set ?xs. \<forall>b\<in>set ?xs. ties ?c a b \<longrightarrow> a = b) \<longrightarrow>
      emitted_slice limit offset ys = ws"
    using ties_unique [OF t] by blast
  with out t show ?thesis by blast
qed


theorem partial_sort_path_matches_full_sort_witness:
  "output_tuples (fst (snd (p_execute libstdcxx_collaborators ()
      (example_executor [(5, 0), (1, 1), (3, 0), (1, 2), (4, 0)] [fst] [SORT_DIRECTION_TYPE_ASC]
         (Some (2, 1))) 10))) = [(1, 1), (3, 0)] \<and>
   full_sort_then_window libstdcxx_collaborators
     (TupleComparer_op int_compare [fst] [SORT_DIRECTION_TYPE_ASC]) 2 1
     [(5, 0), (1, 1), (3, 0), (1, 2), (4, 0)] = Inr [(1, 2), (3, 0)] \<and>
   list_all2 (ties (TupleComparer_op int_compare [fst] [SORT_DIRECTION_TYPE_ASC]))
     [(1, 1), (3, 0)] [(1, 2), (3 :: int, 0 :: int)]"
proof -
  let ?ts = "[(5, 0), (1, 1), (3, 0), (1, 2), (4 :: int, 0 :: int)]"
  let ?keys = "[fst] :: (int \<times> int \<Rightarrow> int) list"
  let ?dirs = "[SORT_DIRECTION_TYPE_ASC]"
  let ?node = "example_node ?ts ?keys ?dirs"
  let ?tab = "\<lparr>schema = (), tuples = ?ts\<rparr>"
  let ?ex = "example_executor ?ts ?keys ?dirs (Some (2, 1))"
  let ?run = "p_execute libstdcxx_collaborators () ?ex (10 :: nat)"
  let ?c = "TupleComparer_op (nvalue_compare libstdcxx_collaborators)
      (getSortExpressions ?node) (getSortDirections ?node)"
  have "fst ?run = Inr True" by code_simp
  then have run: "?run = (Inr True, fst (snd ?run), snd (snd ?run))"
    by (metis prod.collapse)
  have win: "resolve_window (limit_node ?ex) () = (2, 1)"
    by (simp add: example_executor_simps)
  have lt: "2 + 1 < int (length (tuples ?tab))" by simp
  have lib: "std_contract libstdcxx_collaborators ?c (tuples ?tab)" by code_simp
  have swo: "strict_weak_on ?c (set (tuples ?tab))" by code_simp
  have c: "?c = TupleComparer_op int_compare [fst] [SORT_DIRECTION_TYPE_ASC]"
    by (simp add: example_executor_simps libstdcxx_collaborators_def)
  have full0: "full_sort_then_window libstdcxx_collaborators
      (TupleComparer_op int_compare [fst] [SORT_DIRECTION_TYPE_ASC]) 2 1 ?ts =
      Inr [(1, 2), (3, 0)]" by code_simp
  then have full: "full_sort_then_window libstdcxx_collaborators ?c 2 1 (tuples ?tab) =
      Inr [(1, 2), (3, 0)]" by (simp add: c)
  have out: "output_tuples (fst (snd ?run)) = [(1, 1), (3, 0)]" by code_simp
  from partial_sort_path_matches_full_sort [of libstdcxx_collaborators "()" ?ex 10 True
      "fst (snd ?run)" "snd (snd ?run)" ?node ?tab 2 1 "[(1, 2), (3, 0)]",
      OF run example_executor_simps(1) example_executor_simps(2) win _ _ lt lib swo full]
  obtain ins where "output_tuples (fst (snd ?run)) = output_tuples ?ex @ ins"
    "list_all2 (ties ?c) ins [(1, 2), (3, 0)]"
    by auto
  with out have "list_all2 (ties ?c) [(1, 1), (3, 0)] [(1, 2), (3, 0)]"
    by (simp add: example_executor_simps)
  then have "list_all2 (ties (TupleComparer_op int_compare [fst] [SORT_DIRECTION_TYPE_ASC]))
      [(1, 1), (3, 0)] [(1, 2), (3 :: int, 0 :: int)]"
    unfolding c .
  with out full0 show ?thesis by (intro conjI)
qed

subsection \<open>The hypotheses can be met\<close>

text \<open>
  With valid directions and a value comparison that is sign-symmetric and transitive,
  the comparator is a strict weak ordering, as the standard algorithms require.
\<close>

lemma adjusted_antisym:
  assumes "compare_antisym cmp"
  shows "(adjusted_cmp cmp a b e < 0) = (0 < adjusted_cmp cmp b a e)"
proof -
  from assms have 1: "(cmp (fst e a) (fst e b) < 0) = (0 < cmp (fst e b) (fst e a))"
    and 2: "(cmp (fst e b) (fst e a) < 0) = (0 < cmp (fst e a) (fst e b))"
    unfolding compare_antisym_def by blast+
  show ?thesis
  proof (cases "snd e = SORT_DIRECTION_TYPE_DESC")
    case True
    with 2 show ?thesis by (simp add: adjusted_cmp_def)
  next
    case False
    with 1 show ?thesis by (simp add: adjusted_cmp_def)
  qed
qed

lemma adjusted_trans:
  assumes anti: "compare_antisym cmp" and trans: "compare_trans cmp"
    and 1: "adjusted_cmp cmp a b e \<le> 0" and 2: "adjusted_cmp cmp b c e \<le> 0"
  shows "adjusted_cmp cmp a c e \<le> 0"
proof (cases "snd e = SORT_DIRECTION_TYPE_DESC")
  case False
  with 1 2 have "cmp (fst e a) (fst e b) \<le> 0 \<and> cmp (fst e b) (fst e c) \<le> 0"
    by (simp add: adjusted_cmp_def)
  with trans have "cmp (fst e a) (fst e c) \<le> 0" unfolding compare_trans_def by blast
  with False show ?thesis by (simp add: adjusted_cmp_def)
next
  case True
  with 1 2 have "\<not> cmp (fst e a) (fst e b) < 0" "\<not> cmp (fst e b) (fst e c) < 0"
    by (simp_all add: adjusted_cmp_def)
  then have "cmp (fst e c) (fst e b) \<le> 0 \<and> cmp (fst e b) (fst e a) \<le> 0"
    by (simp add: compare_antisym_signs(1) [OF anti])
  with trans have "cmp (fst e c) (fst e a) \<le> 0" unfolding compare_trans_def by blast
  then have "\<not> 0 < cmp (fst e c) (fst e a)" by simp
  then have "0 \<le> cmp (fst e a) (fst e c)" by (rule compare_antisym_signs(2) [OF anti])
  with True show ?thesis by (simp add: adjusted_cmp_def)
qed

lemma lex_precedes_Nil [simp]: "lex_precedes cmp [] a b = False"
  by (simp add: lex_precedes_def)

lemma lex_precedes_Cons:
  "lex_precedes cmp (e # es) a b =
     (if adjusted_cmp cmp a b e \<noteq> 0 then adjusted_cmp cmp a b e < 0
      else lex_precedes cmp es a b)"
  by (simp add: lex_precedes_def)

lemma lex_precedes_asym:
  assumes anti: "compare_antisym cmp"
  shows "lex_precedes cmp es a b \<Longrightarrow> \<not> lex_precedes cmp es b a"
proof (induction es)
  case Nil
  then show ?case by simp
next
  case (Cons e es)
  from adjusted_antisym [OF anti, of a b e] adjusted_antisym [OF anti, of b a e]
  have "adjusted_cmp cmp a b e < 0 \<Longrightarrow> 0 < adjusted_cmp cmp b a e"
    and "adjusted_cmp cmp a b e = 0 \<Longrightarrow> adjusted_cmp cmp b a e = 0"
    by linarith+
  with Cons show ?case by (auto simp: lex_precedes_Cons split: if_splits)
qed

lemma lex_precedes_cotrans:
  assumes anti: "compare_antisym cmp" and trans: "compare_trans cmp"
  shows "lex_precedes cmp es a b \<Longrightarrow> lex_precedes cmp es a c \<or> lex_precedes cmp es c b"
proof (induction es)
  case Nil
  then show ?case by simp
next
  case (Cons e es)
  let ?f = "\<lambda>x y. adjusted_cmp cmp x y e"
  have A: "(?f x y < 0) = (0 < ?f y x)" for x y by (rule adjusted_antisym [OF anti])
  have T: "?f x y \<le> 0 \<Longrightarrow> ?f y z \<le> 0 \<Longrightarrow> ?f x z \<le> 0" for x y z
    by (rule adjusted_trans [OF anti trans])
  show ?case
  proof (cases "?f a c < 0")
    case True
    then show ?thesis by (simp add: lex_precedes_Cons)
  next
    case ac: False
    then have ca: "?f c a \<le> 0" using A [of c a] A [of a c] by linarith
    show ?thesis
    proof (cases "?f a b < 0")
      case True
      have "?f c b < 0"
      proof (rule ccontr)
        assume "\<not> ?f c b < 0"
        then have "?f b c \<le> 0" using A [of b c] A [of c b] by linarith
        from T [OF this ca] True A [of a b] A [of b a] show False by linarith
      qed
      then show ?thesis by (simp add: lex_precedes_Cons)
    next
      case False
      with Cons.prems have ab: "?f a b = 0" and rest: "lex_precedes cmp es a b"
        by (auto simp: lex_precedes_Cons split: if_splits)
      from ab have ba: "?f b a \<le> 0" using A [of a b] A [of b a] by linarith
      show ?thesis
      proof (cases "?f c b < 0")
        case True
        then show ?thesis by (simp add: lex_precedes_Cons)
      next
        case False
        then have bc: "?f b c \<le> 0" using A [of b c] A [of c b] by linarith
        from ab have ab': "?f a b \<le> 0" by simp
        from T [OF ab' bc] ac have "?f a c = 0" by linarith
        moreover from T [OF ca ab'] False have "?f c b = 0" by linarith
        ultimately show ?thesis using Cons.IH [OF rest] by (simp add: lex_precedes_Cons)
      qed
    qed
  qed
qed

lemma TupleComparer_op_strict_weak:
  assumes anti: "compare_antisym cmp" and trans: "compare_trans cmp"
    and len: "length keys = length dirs" and valid: "\<forall>d\<in>set dirs. valid_direction d"
  shows "strict_weak_on (TupleComparer_op cmp keys dirs) S"
proof -
  let ?lex = "lex_precedes cmp (zip keys dirs)"
  have op: "TupleComparer_op cmp keys dirs a b = Inr (?lex a b)" for a b
    using len valid by (rule op_lex)
  have 1: "TupleComparer_op cmp keys dirs a b = Inr True \<or>
           TupleComparer_op cmp keys dirs a b = Inr False" for a b
    unfolding op by simp
  have 2: "TupleComparer_op cmp keys dirs b a = Inr False"
    if "TupleComparer_op cmp keys dirs a b = Inr True" for a b
    using that lex_precedes_asym [OF anti, of "zip keys dirs" a b] unfolding op by simp
  have 3: "TupleComparer_op cmp keys dirs a c = Inr True \<or>
           TupleComparer_op cmp keys dirs c b = Inr True"
    if "TupleComparer_op cmp keys dirs a b = Inr True" for a b c
    using that lex_precedes_cotrans [OF anti trans, of "zip keys dirs" a b c] unfolding op by simp
  from 1 2 3 show ?thesis unfolding strict_weak_on_def by blast
qed

lemma int_compare_le: "int_compare x y \<le> 0 \<longleftrightarrow> x \<le> y"
  by (simp add: int_compare_def)

lemma int_compare_trans: "compare_trans int_compare"
  unfolding compare_trans_def int_compare_le by simp

text \<open>
  The selection sorts of the reference instance meet the contract of the standard
  algorithms on every input that the comparator orders strictly and weakly.
\<close>

lemma extract_min_correct:
  assumes swo: "strict_weak_on cp S"
  shows "c \<in> S \<Longrightarrow> set ys \<subseteq> S \<Longrightarrow>
    \<exists>z rest. extract_min cp c ys = Inr (z, rest) \<and> mset (z # rest) = mset (c # ys) \<and>
      (\<forall>x\<in>set (c # ys). cp x z = Inr False)"
proof (induction ys arbitrary: c)
  case Nil
  with swo show ?case by (simp add: strict_weak_irrefl)
next
  case (Cons y ys)
  from Cons.prems have y: "y \<in> S" and ys: "set ys \<subseteq> S" by simp_all
  from swo y Cons.prems(1) have tot: "cp y c = Inr True \<or> cp y c = Inr False"
    unfolding strict_weak_on_def by blast
  then show ?case
  proof
    assume yc: "cp y c = Inr True"
    from Cons.IH [OF y ys] obtain z rest where
      e: "extract_min cp y ys = Inr (z, rest)" and m: "mset (z # rest) = mset (y # ys)"
      and least: "\<forall>x\<in>set (y # ys). cp x z = Inr False"
      by blast
    from m have "z \<in> set (y # ys)" by (metis list.set_intros(1) mset_eq_setD)
    with y ys have z: "z \<in> S" by auto
    have "cp c z = Inr False"
    proof (rule ccontr)
      assume "cp c z \<noteq> Inr False"
      with swo Cons.prems(1) z have cz: "cp c z = Inr True" unfolding strict_weak_on_def by blast
      with swo Cons.prems(1) z y have "cp c y = Inr True \<or> cp y z = Inr True"
        unfolding strict_weak_on_def by blast
      moreover from swo y Cons.prems(1) yc have "cp c y = Inr False"
        unfolding strict_weak_on_def by blast
      moreover from least have "cp y z = Inr False" by simp
      ultimately show False by simp
    qed
    with e m least yc show ?thesis by simp
  next
    assume yc: "cp y c = Inr False"
    from Cons.IH [OF Cons.prems(1) ys] obtain z rest where
      e: "extract_min cp c ys = Inr (z, rest)" and m: "mset (z # rest) = mset (c # ys)"
      and least: "\<forall>x\<in>set (c # ys). cp x z = Inr False"
      by blast
    from m have "z \<in> set (c # ys)" by (metis list.set_intros(1) mset_eq_setD)
    with Cons.prems(1) ys have z: "z \<in> S" by auto
    have "cp y z = Inr False"
    proof (rule ccontr)
      assume "cp y z \<noteq> Inr False"
      with swo y z have "cp y z = Inr True" unfolding strict_weak_on_def by blast
      with swo y z Cons.prems(1) have "cp y c = Inr True \<or> cp c z = Inr True"
        unfolding strict_weak_on_def by blast
      moreover from least have "cp c z = Inr False" by simp
      ultimately show False using yc by simp
    qed
    with e m least yc show ?thesis by simp
  qed
qed

lemma selection_partial_sort_correct:
  assumes swo: "strict_weak_on cp S"
  shows "set xs \<subseteq> S \<Longrightarrow>
    \<exists>ys. selection_partial_sort cp n xs = Inr ys \<and> mset ys = mset xs \<and>
      sorted_by cp (take n ys) \<and>
      (\<forall>a\<in>set (take n ys). \<forall>b\<in>set (drop n ys). cp b a = Inr False)"
proof (induction n arbitrary: xs)
  case 0
  then show ?case by (simp add: sorted_by_def)
next
  case (Suc n)
  show ?case
  proof (cases xs)
    case Nil
    then show ?thesis by (simp add: sorted_by_def)
  next
    case (Cons x xs')
    with Suc.prems have x: "x \<in> S" and xs': "set xs' \<subseteq> S" by simp_all
    from extract_min_correct [OF swo x xs'] obtain z rest where
      e: "extract_min cp x xs' = Inr (z, rest)" and m: "mset (z # rest) = mset (x # xs')"
      and least: "\<forall>y\<in>set (x # xs'). cp y z = Inr False"
      by blast
    from m have s: "set (z # rest) = set (x # xs')" by (rule mset_eq_setD)
    with x xs' have rest: "set rest \<subseteq> S" by auto
    from Suc.IH [OF rest] obtain ys where
      r: "selection_partial_sort cp n rest = Inr ys" and my: "mset ys = mset rest"
      and sy: "sorted_by cp (take n ys)"
      and cross: "\<forall>a\<in>set (take n ys). \<forall>b\<in>set (drop n ys). cp b a = Inr False"
      by blast
    from my have sr: "set ys = set rest" by (rule mset_eq_setD)
    from least s have lz: "\<forall>y\<in>set rest. cp y z = Inr False" by auto
    have 1: "selection_partial_sort cp (Suc n) xs = Inr (z # ys)"
      using Cons e r by simp
    have 2: "mset (z # ys) = mset xs" using Cons m my by simp
    have 3: "sorted_by cp (take (Suc n) (z # ys))"
      using sy lz sr by (auto simp: sorted_by_def dest: in_set_takeD)
    have 4: "\<forall>a\<in>set (take (Suc n) (z # ys)). \<forall>b\<in>set (drop (Suc n) (z # ys)). cp b a = Inr False"
      using cross lz sr by (auto dest: in_set_dropD)
    from 1 2 3 4 show ?thesis by blast
  qed
qed

lemma selection_sorts_meet_contract:
  assumes swo: "strict_weak_on cp (set xs)"
  shows "sort_post cp xs (selection_sort cp xs)"
    and "partial_sort_post cp n xs (selection_partial_sort cp n xs)"
proof -
  from selection_partial_sort_correct [OF swo subset_refl, of "length xs"] obtain ys where
    ys: "selection_partial_sort cp (length xs) xs = Inr ys" "mset ys = mset xs"
      "sorted_by cp (take (length xs) ys)"
    by blast
  from ys(2) have "length ys = length xs" by (rule mset_eq_length)
  with ys(3) have "sorted_by cp ys" by simp
  with ys show "sort_post cp xs (selection_sort cp xs)"
    by (simp add: sort_post_def selection_sort_def)
  from selection_partial_sort_correct [OF swo subset_refl, of n]
  show "partial_sort_post cp n xs (selection_partial_sort cp n xs)"
    by (auto simp: partial_sort_post_def)
qed

lemma reference_collaborators_meet_contract:
  assumes "strict_weak_on cp (set xs)"
  shows "std_contract reference_collaborators cp xs"
  using selection_sorts_meet_contract [OF assms]
  by (simp add: std_contract_def reference_collaborators_def)

lemma reference_contract_for_valid_directions:
  assumes "length keys = length dirs" and "\<forall>d\<in>set dirs. valid_direction d"
  shows "std_contract reference_collaborators (TupleComparer_op int_compare keys dirs) xs"
  using assms
  by (intro reference_collaborators_meet_contract TupleComparer_op_strict_weak
        int_compare_antisym int_compare_trans)

end
